theory Spec2Isabelle
  imports Main "HOL-Library.Word" "HOL-Library.Multiset"
begin

section \<open>The mirror field engine of mirrorfield.c\<close>

text \<open>
  The module keeps its whole state in static storage: two arrays of nodes
  (\<open>gridnodes[MIRROR_FIELD_COUNT][GRID_SIZE * GRID_SIZE]\<close> and
  \<open>perimeter[MIRROR_FIELD_COUNT][GRID_SIZE * 4]\<close>) and the function-local statics
  \<open>i\<close>, \<open>j\<close> of \<open>mirrorfield_set\<close>, \<open>m\<close> of \<open>mirrorfield_crypt_char\<close> and \<open>g1\<close>,
  \<open>g2\<close>, \<open>c\<close> of \<open>mirrorfield_roll_chars\<close>.  The macros \<open>GRID_SIZE\<close> and
  \<open>MIRROR_FIELD_COUNT\<close> come from \<open>main.h\<close>; every function below takes them as
  the parameters \<open>G\<close> and \<open>N\<close>.
\<close>

subsection \<open>Data model\<close>

type_synonym byte = "8 word"

abbreviation MIRROR_NONE :: int where "MIRROR_NONE \<equiv> - 1"
abbreviation MIRROR_FORWARD :: int where "MIRROR_FORWARD \<equiv> - 2"
abbreviation MIRROR_STRAIGHT :: int where "MIRROR_STRAIGHT \<equiv> - 3"
abbreviation MIRROR_BACKWARD :: int where "MIRROR_BACKWARD \<equiv> - 4"

datatype dir = DIR_UP | DIR_DOWN | DIR_LEFT | DIR_RIGHT

text \<open>
  A \<open>struct gridnode *\<close> is either \<open>NULL\<close> (\<open>None\<close>) or the address of an element
  of one of the two arrays: \<open>Gridnode k j\<close> is \<open>&gridnodes[k][j]\<close> and
  \<open>Perimeter k i\<close> is \<open>&perimeter[k][i]\<close>.
\<close>

datatype nodeptr = Gridnode nat nat | Perimeter nat nat

record gridnode =
  val :: int
  up :: "nodeptr option"
  down :: "nodeptr option"
  left :: "nodeptr option"
  right :: "nodeptr option"

text \<open>
  What C leaves undefined is a value of the model: dereferencing \<open>NULL\<close>, indexing an
  array outside its bounds, reading a variable that was never assigned.
\<close>

datatype fault = NullDeref | OutOfBounds | UninitRead

record engine =
  gridnodes :: "gridnode list list"
  perimeter :: "gridnode list list"
  set_i :: nat
  set_j :: nat
  crypt_m :: nat
  roll_g1 :: nat
  roll_g2 :: nat
  roll_c :: nat

definition null_node :: gridnode where
  "null_node = \<lparr>val = 0, up = None, down = None, left = None, right = None\<rparr>"

text \<open>
  The state at program start: static arrays are zero-filled, the function-local statics
  hold their initialisers (\<open>g2 = GRID_SIZE * 2\<close>, all others 0).
\<close>

definition mirrorfield_start :: "nat \<Rightarrow> nat \<Rightarrow> engine" where
  "mirrorfield_start G N =
     \<lparr>gridnodes = replicate N (replicate (G * G) null_node),
      perimeter = replicate N (replicate (G * 4) null_node),
      set_i = 0, set_j = 0, crypt_m = 0,
      roll_g1 = 0, roll_g2 = G * 2, roll_c = 0\<rparr>"

text \<open>The arrays have their declared dimensions.\<close>

definition dims :: "nat \<Rightarrow> nat \<Rightarrow> engine \<Rightarrow> bool" where
  "dims G N st \<longleftrightarrow>
     length (gridnodes st) = N \<and> list_all (\<lambda>row. length row = G * G) (gridnodes st) \<and>
     length (perimeter st) = N \<and> list_all (\<lambda>row. length row = G * 4) (perimeter st)"

subsection \<open>mirrorfield_roll_chars\<close>

text \<open>
  The two search loops \<open>for (i = 0; perimeter[m][i].value != x; ++i);\<close> have no bound
  of their own; the array has \<open>n = GRID_SIZE * 4\<close> elements, and reading element \<open>n\<close>
  is out of bounds.
\<close>

function roll_search :: "nat \<Rightarrow> gridnode list \<Rightarrow> int \<Rightarrow> nat \<Rightarrow> fault + nat" where
  "roll_search n row x i =
     (if n \<le> i then Inl OutOfBounds
      else if val (row ! i) \<noteq> x then roll_search n row x (Suc i)
      else Inr i)"
  by pat_completeness auto
termination
  by (relation "measure (\<lambda>(n, row, x, i). n - i)") auto

declare roll_search.simps [simp del]

text \<open>\<open>t = a[i].value; a[i].value = a[g].value; a[g].value = t;\<close>\<close>

definition roll_swap :: "gridnode list \<Rightarrow> nat \<Rightarrow> nat \<Rightarrow> gridnode list" where
  "roll_swap row i g =
     (let t = val (row ! i);
          row1 = row[i := (row ! i)\<lparr>val := val (row ! g)\<rparr>]
      in row1[g := (row1 ! g)\<lparr>val := t\<rparr>])"

text \<open>The rotate order of lines 374-381: the pair \<open>(x1, x2)\<close>.\<close>

definition roll_order :: "gridnode list \<Rightarrow> nat \<Rightarrow> nat \<Rightarrow> nat \<times> nat" where
  "roll_order row s e = (if val (row ! s) > val (row ! e) then (s, e) else (e, s))"

text \<open>The roll position of lines 399-404.\<close>

definition roll_advance :: "nat \<Rightarrow> nat \<Rightarrow> engine \<Rightarrow> engine" where
  "roll_advance G N st =
     (if roll_c st + 1 = N
      then st\<lparr>roll_g1 := (roll_g1 st + 1) mod (G * 4),
              roll_g2 := (roll_g2 st + 1) mod (G * 4),
              roll_c := 0\<rparr>
      else st\<lparr>roll_c := roll_c st + 1\<rparr>)"

definition mirrorfield_roll_chars ::
  "nat \<Rightarrow> nat \<Rightarrow> nat \<Rightarrow> nat \<Rightarrow> nat \<Rightarrow> engine \<Rightarrow> fault + engine" where
  "mirrorfield_roll_chars G N s e m st =
     (if \<not> (m < N \<and> s < G * 4 \<and> e < G * 4) then Inl OutOfBounds
      else
        let row = perimeter st ! m;
            (x1, x2) = roll_order row s e
        in case roll_search (G * 4) row (int x1) 0 of
             Inl f \<Rightarrow> Inl f
           | Inr i \<Rightarrow>
               if \<not> roll_g1 st < G * 4 then Inl OutOfBounds
               else
                 let row1 = roll_swap row i (roll_g1 st)
                 in case roll_search (G * 4) row1 (int x2) 0 of
                      Inl f \<Rightarrow> Inl f
                    | Inr i2 \<Rightarrow>
                        if \<not> roll_g2 st < G * 4 then Inl OutOfBounds
                        else
                          let row2 = roll_swap row1 i2 (roll_g2 st)
                          in Inr (roll_advance G N
                                   (st\<lparr>perimeter := (perimeter st)[m := row2]\<rparr>)))"

text \<open>A caller that runs the rolling step once per argument triple \<open>(s, e, m)\<close>.\<close>

fun roll_calls :: "nat \<Rightarrow> nat \<Rightarrow> (nat \<times> nat \<times> nat) list \<Rightarrow> engine \<Rightarrow> fault + engine" where
  "roll_calls G N [] st = Inr st"
| "roll_calls G N ((s, e, m) # cs) st =
     (case mirrorfield_roll_chars G N s e m st of
        Inl f \<Rightarrow> Inl f
      | Inr st' \<Rightarrow> roll_calls G N cs st')"

subsection \<open>Node access\<close>

text \<open>Reading \<open>*p\<close> for a non-null \<open>p\<close>: the element the address names.\<close>

definition node_at :: "nat \<Rightarrow> nat \<Rightarrow> engine \<Rightarrow> nodeptr \<Rightarrow> fault + gridnode" where
  "node_at G N st p =
     (case p of
        Gridnode k j \<Rightarrow>
          if k < N \<and> j < G * G then Inr (gridnodes st ! k ! j) else Inl OutOfBounds
      | Perimeter k i \<Rightarrow>
          if k < N \<and> i < G * 4 then Inr (perimeter st ! k ! i) else Inl OutOfBounds)"

text \<open>Writing through a pointer: \<open>*p = f (*p)\<close>.\<close>

definition node_upd :: "engine \<Rightarrow> nodeptr \<Rightarrow> (gridnode \<Rightarrow> gridnode) \<Rightarrow> engine" where
  "node_upd st p f =
     (case p of
        Gridnode k j \<Rightarrow>
          st\<lparr>gridnodes := (gridnodes st)[k := (gridnodes st ! k)[j := f (gridnodes st ! k ! j)]]\<rparr>
      | Perimeter k i \<Rightarrow>
          st\<lparr>perimeter := (perimeter st)[k := (perimeter st ! k)[i := f (perimeter st ! k ! i)]]\<rparr>)"

definition link_of :: "dir \<Rightarrow> gridnode \<Rightarrow> nodeptr option" where
  "link_of d nd = (case d of DIR_DOWN \<Rightarrow> down nd | DIR_LEFT \<Rightarrow> left nd
                           | DIR_RIGHT \<Rightarrow> right nd | DIR_UP \<Rightarrow> up nd)"

subsection \<open>mirrorfield_init\<close>

definition init_row :: "nat \<Rightarrow> gridnode list \<Rightarrow> gridnode list" where
  "init_row n row = fold (\<lambda>i r. r[i := null_node]) [0..<n] row"

definition mirrorfield_init :: "nat \<Rightarrow> nat \<Rightarrow> engine \<Rightarrow> engine" where
  "mirrorfield_init G N st =
     fold (\<lambda>j s. s\<lparr>gridnodes := (gridnodes s)[j := init_row (G * G) (gridnodes s ! j)],
                   perimeter := (perimeter s)[j := init_row (G * 4) (perimeter s ! j)]\<rparr>)
          [0..<N] st"

subsection \<open>mirrorfield_set\<close>

definition set_grid_val :: "engine \<Rightarrow> nat \<Rightarrow> nat \<Rightarrow> int \<Rightarrow> engine" where
  "set_grid_val st k j v = node_upd st (Gridnode k j) (\<lambda>nd. nd\<lparr>val := v\<rparr>)"

text \<open>The result is the C return value (0 or 1) and the state after the call.\<close>

definition mirrorfield_set :: "nat \<Rightarrow> nat \<Rightarrow> byte \<Rightarrow> engine \<Rightarrow> int \<times> engine" where
  "mirrorfield_set G N ch st =
     (let i = set_i st in
      if i < G * G * N then
        (let st1 = st\<lparr>set_j := i div (G * G)\<rparr>; j = set_j st1; x = i mod (G * G) in
         if ch = 0x2F then (1, (set_grid_val st1 j x MIRROR_FORWARD)\<lparr>set_i := i + 1\<rparr>)
         else if ch = 0x5C then (1, (set_grid_val st1 j x MIRROR_BACKWARD)\<lparr>set_i := i + 1\<rparr>)
         else if ch = 0x2D then (1, (set_grid_val st1 j x MIRROR_STRAIGHT)\<lparr>set_i := i + 1\<rparr>)
         else if ch = 0x20 then (1, (set_grid_val st1 j x MIRROR_NONE)\<lparr>set_i := i + 1\<rparr>)
         else (0, st1))
      else if i < G * G * N + G * 4 * N then
        (let st1 = st\<lparr>set_j := (i - G * G * N) div (G * 4)\<rparr>; j = set_j st1 in
         (1, (node_upd st1 (Perimeter j ((i - G * G * N) mod (G * 4)))
                (\<lambda>nd. nd\<lparr>val := uint ch\<rparr>))\<lparr>set_i := i + 1\<rparr>))
      else (0, st))"

text \<open>Feeding a configuration string byte by byte, as the driver does; rejected bytes
  are skipped.\<close>

fun set_all :: "nat \<Rightarrow> nat \<Rightarrow> byte list \<Rightarrow> engine \<Rightarrow> engine" where
  "set_all G N [] st = st"
| "set_all G N (ch # chs) st = set_all G N chs (snd (mirrorfield_set G N ch st))"

subsection \<open>mirrorfield_validate\<close>

definition mirrorfield_validate :: "nat \<Rightarrow> nat \<Rightarrow> engine \<Rightarrow> int" where
  "mirrorfield_validate G N st =
     (if \<exists>k \<in> set [0..<N]. \<exists>i \<in> set [0..<G * G].
           val (gridnodes st ! k ! i) > MIRROR_NONE \<or> val (gridnodes st ! k ! i) < MIRROR_BACKWARD
      then 0
      else if \<exists>k \<in> set [0..<N]. \<exists>i \<in> set [0..<G * 4]. \<exists>j \<in> set [i + 1..<G * 4].
           val (perimeter st ! k ! i) = val (perimeter st ! k ! j)
      then 0
      else 1)"

subsection \<open>mirrorfield_link\<close>

text \<open>
  One pass of an inner loop body: \<open>temp->down = &gridnodes[k][j];
  gridnodes[k][j].up = temp; temp = &gridnodes[k][j];\<close> (and the same with
  \<open>right\<close>/\<open>left\<close>).
\<close>

definition link_down :: "nat \<Rightarrow> nat \<Rightarrow> engine \<times> nodeptr \<Rightarrow> engine \<times> nodeptr" where
  "link_down k j = (\<lambda>(st, temp).
     let st1 = node_upd st temp (\<lambda>nd. nd\<lparr>down := Some (Gridnode k j)\<rparr>);
         st2 = node_upd st1 (Gridnode k j) (\<lambda>nd. nd\<lparr>up := Some temp\<rparr>)
     in (st2, Gridnode k j))"

definition link_right :: "nat \<Rightarrow> nat \<Rightarrow> engine \<times> nodeptr \<Rightarrow> engine \<times> nodeptr" where
  "link_right k j = (\<lambda>(st, temp).
     let st1 = node_upd st temp (\<lambda>nd. nd\<lparr>right := Some (Gridnode k j)\<rparr>);
         st2 = node_upd st1 (Gridnode k j) (\<lambda>nd. nd\<lparr>left := Some temp\<rparr>)
     in (st2, Gridnode k j))"

text \<open>\<open>for (j = i; j < GRID_SIZE * GRID_SIZE; j += GRID_SIZE)\<close>\<close>

function link_col_loop :: "nat \<Rightarrow> nat \<Rightarrow> nat \<Rightarrow> engine \<times> nodeptr \<Rightarrow> engine \<times> nodeptr" where
  "link_col_loop G k j x =
     (if j < G * G then link_col_loop G k (j + G) (link_down k j x) else x)"
  by pat_completeness auto
termination
proof (relation "measure (\<lambda>(G, k, j, x). G * G - j)")
  fix G k j :: nat and x :: "engine \<times> nodeptr"
  assume "j < G * G"
  then have "0 < G" by (cases G) auto
  with \<open>j < G * G\<close> show "((G, k, j + G, link_down k j x), (G, k, j, x))
      \<in> measure (\<lambda>(G, k, j, x). G * G - j)"
    by simp
qed simp

declare link_col_loop.simps [simp del]

text \<open>\<open>for (j = i * GRID_SIZE; j < (i * GRID_SIZE) + GRID_SIZE; ++j)\<close>\<close>

function link_row_loop :: "nat \<Rightarrow> nat \<Rightarrow> nat \<Rightarrow> nat \<Rightarrow> engine \<times> nodeptr \<Rightarrow> engine \<times> nodeptr" where
  "link_row_loop G k i j x =
     (if j < i * G + G then link_row_loop G k i (j + 1) (link_right k j x) else x)"
  by pat_completeness auto
termination
  by (relation "measure (\<lambda>(G, k, i, j, x). i * G + G - j)") auto

declare link_row_loop.simps [simp del]

definition link_col :: "nat \<Rightarrow> nat \<Rightarrow> nat \<Rightarrow> engine \<Rightarrow> engine" where
  "link_col G k i st =
     (let (st1, temp) = link_col_loop G k i (st, Perimeter k i);
          st2 = node_upd st1 temp (\<lambda>nd. nd\<lparr>down := Some (Perimeter k (i + G * 2))\<rparr>)
      in node_upd st2 (Perimeter k (i + G * 2)) (\<lambda>nd. nd\<lparr>up := Some temp\<rparr>))"

definition link_row :: "nat \<Rightarrow> nat \<Rightarrow> nat \<Rightarrow> engine \<Rightarrow> engine" where
  "link_row G k i st =
     (let (st1, temp) = link_row_loop G k i (i * G) (st, Perimeter k (i + G * 3));
          st2 = node_upd st1 temp (\<lambda>nd. nd\<lparr>right := Some (Perimeter k (i + G))\<rparr>)
      in node_upd st2 (Perimeter k (i + G)) (\<lambda>nd. nd\<lparr>left := Some temp\<rparr>))"

definition link_field :: "nat \<Rightarrow> nat \<Rightarrow> engine \<Rightarrow> engine" where
  "link_field G k st = fold (link_row G k) [0..<G] (fold (link_col G k) [0..<G] st)"

definition mirrorfield_link :: "nat \<Rightarrow> nat \<Rightarrow> engine \<Rightarrow> engine" where
  "mirrorfield_link G N st = fold (link_field G) [0..<N] st"

subsection \<open>mirrorfield_crypt_char_advance\<close>

text \<open>The direction after entering a cell of value \<open>v\<close> (lines 302-336).\<close>

definition reflect :: "int \<Rightarrow> dir \<Rightarrow> dir" where
  "reflect v d =
     (if v = MIRROR_FORWARD then
        (case d of DIR_DOWN \<Rightarrow> DIR_LEFT | DIR_LEFT \<Rightarrow> DIR_DOWN
                 | DIR_RIGHT \<Rightarrow> DIR_UP | DIR_UP \<Rightarrow> DIR_RIGHT)
      else if v = MIRROR_BACKWARD then
        (case d of DIR_DOWN \<Rightarrow> DIR_RIGHT | DIR_LEFT \<Rightarrow> DIR_UP
                 | DIR_RIGHT \<Rightarrow> DIR_DOWN | DIR_UP \<Rightarrow> DIR_LEFT)
      else d)"

text \<open>The value a cell of value \<open>v\<close> gets when the call returns (lines 342-352).\<close>

definition rotate_mirror :: "int \<Rightarrow> int" where
  "rotate_mirror v =
     (if v = MIRROR_FORWARD then MIRROR_STRAIGHT
      else if v = MIRROR_BACKWARD then MIRROR_FORWARD
      else if v = MIRROR_STRAIGHT then MIRROR_BACKWARD
      else v)"

text \<open>
  The function is recursive with no bound of its own, so the model takes the number of
  calls it may make: \<open>None\<close> says that this number was not enough.  The model is the
  function with \<open>debug = 0\<close>: \<open>mirrorfield_draw\<close> only prints.
\<close>

fun mirrorfield_crypt_char_advance ::
  "nat \<Rightarrow> nat \<Rightarrow> nat \<Rightarrow> engine \<Rightarrow> nodeptr \<Rightarrow> dir \<Rightarrow> (fault + nodeptr \<times> engine) option" where
  "mirrorfield_crypt_char_advance 0 G N st p d = None"
| "mirrorfield_crypt_char_advance (Suc n) G N st p d =
     (case node_at G N st p of
        Inl f \<Rightarrow> Some (Inl f)
      | Inr nd \<Rightarrow>
         (case link_of d nd of
            None \<Rightarrow> Some (Inl NullDeref)
          | Some p' \<Rightarrow>
             (case node_at G N st p' of
                Inl f \<Rightarrow> Some (Inl f)
              | Inr nd' \<Rightarrow>
                  if val nd' < 0 then
                    (case mirrorfield_crypt_char_advance n G N st p' (reflect (val nd') d) of
                       None \<Rightarrow> None
                     | Some (Inl f) \<Rightarrow> Some (Inl f)
                     | Some (Inr (t, st1)) \<Rightarrow>
                         Some (Inr (t, node_upd st1 p' (\<lambda>x. x\<lparr>val := rotate_mirror (val x)\<rparr>))))
                  else Some (Inr (p', st)))))"

subsection \<open>mirrorfield_crypt_char\<close>

text \<open>\<open>for (i = 0; i < GRID_SIZE * 4; ++i) if (perimeter[m][i].value == (int)ch) ... break;\<close>\<close>

function start_search :: "nat \<Rightarrow> gridnode list \<Rightarrow> int \<Rightarrow> nat \<Rightarrow> nat option" where
  "start_search n row x i =
     (if i < n then (if val (row ! i) = x then Some i else start_search n row x (Suc i))
      else None)"
  by pat_completeness auto
termination
  by (relation "measure (\<lambda>(n, row, x, i). n - i)") auto

declare start_search.simps [simp del]

text \<open>The initial direction; \<open>None\<close> when all four links are null and \<open>d\<close> stays unassigned.\<close>

definition start_dir :: "gridnode \<Rightarrow> dir option" where
  "start_dir nd =
     (if down nd \<noteq> None then Some DIR_DOWN
      else if up nd \<noteq> None then Some DIR_UP
      else if left nd \<noteq> None then Some DIR_LEFT
      else if right nd \<noteq> None then Some DIR_RIGHT
      else None)"

definition mirrorfield_crypt_char ::
  "nat \<Rightarrow> nat \<Rightarrow> nat \<Rightarrow> byte \<Rightarrow> engine \<Rightarrow> (fault + byte \<times> engine) option" where
  "mirrorfield_crypt_char fuel G N ch st =
     (let m = crypt_m st in
      if \<not> m < N then Some (Inl OutOfBounds)
      else
        case start_search (G * 4) (perimeter st ! m) (uint ch) 0 of
          None \<Rightarrow> Some (Inl NullDeref)
        | Some i \<Rightarrow>
           (case start_dir (perimeter st ! m ! i) of
              None \<Rightarrow> Some (Inl UninitRead)
            | Some d \<Rightarrow>
               (case mirrorfield_crypt_char_advance fuel G N st (Perimeter m i) d of
                  None \<Rightarrow> None
                | Some (Inl f) \<Rightarrow> Some (Inl f)
                | Some (Inr (endnode, st1)) \<Rightarrow>
                   (case node_at G N st1 endnode of
                      Inl f \<Rightarrow> Some (Inl f)
                    | Inr en \<Rightarrow>
                       (let sv = (word_of_int (val (perimeter st1 ! m ! i)) :: byte);
                            ev = (word_of_int (val en) :: byte);
                            rv = ev
                        in case mirrorfield_roll_chars G N (unat sv) (unat ev) m st1 of
                             Inl f \<Rightarrow> Some (Inl f)
                           | Inr st2 \<Rightarrow>
                              (let k = (unat ev + unat sv) mod (G * 4);
                                   rv = (if val (perimeter st2 ! m ! k) = int k then sv else rv)
                               in Some (Inr (rv, st2\<lparr>crypt_m := (m + 1) mod N\<rparr>))))))))"

subsection \<open>Traversals and executions\<close>

text \<open>
  The cells a traversal passes through: the nodes of negative value that the calls of
  \<open>mirrorfield_crypt_char_advance\<close> enter, in the order of the calls.
\<close>

fun advance_path :: "nat \<Rightarrow> nat \<Rightarrow> nat \<Rightarrow> engine \<Rightarrow> nodeptr \<Rightarrow> dir \<Rightarrow> nodeptr list" where
  "advance_path 0 G N st p d = []"
| "advance_path (Suc n) G N st p d =
     (case node_at G N st p of
        Inl f \<Rightarrow> []
      | Inr nd \<Rightarrow>
         (case link_of d nd of
            None \<Rightarrow> []
          | Some p' \<Rightarrow>
             (case node_at G N st p' of
                Inl f \<Rightarrow> []
              | Inr nd' \<Rightarrow>
                  if val nd' < 0 then p' # advance_path n G N st p' (reflect (val nd') d)
                  else [])))"

text \<open>
  The states a program can be in: it starts in \<open>mirrorfield_start\<close> and calls the
  functions of the module in any order, each call running to its return.
\<close>

inductive reachable :: "nat \<Rightarrow> nat \<Rightarrow> engine \<Rightarrow> bool" for G N where
  start: "reachable G N (mirrorfield_start G N)"
| init: "reachable G N st \<Longrightarrow> reachable G N (mirrorfield_init G N st)"
| set: "reachable G N st \<Longrightarrow> reachable G N (snd (mirrorfield_set G N ch st))"
| link: "reachable G N st \<Longrightarrow> reachable G N (mirrorfield_link G N st)"
| advance: "reachable G N st \<Longrightarrow>
     mirrorfield_crypt_char_advance n G N st p d = Some (Inr (t, st')) \<Longrightarrow> reachable G N st'"
| roll: "reachable G N st \<Longrightarrow>
     mirrorfield_roll_chars G N s e m st = Inr st' \<Longrightarrow> reachable G N st'"
| crypt: "reachable G N st \<Longrightarrow>
     mirrorfield_crypt_char n G N ch st = Some (Inr (rv, st')) \<Longrightarrow> reachable G N st'"

text \<open>The two roll positions are opposite each other on the perimeter.\<close>

definition window_opposite :: "nat \<Rightarrow> engine \<Rightarrow> bool" where
  "window_opposite G st \<longleftrightarrow> roll_g2 st = (roll_g1 st + G * 2) mod (G * 4)"

text \<open>A state that differs from another in the two arrays only.\<close>

definition same_statics :: "engine \<Rightarrow> engine \<Rightarrow> bool" where
  "same_statics st st' \<longleftrightarrow>
     set_i st' = set_i st \<and> set_j st' = set_j st \<and> crypt_m st' = crypt_m st \<and>
     roll_g1 st' = roll_g1 st \<and> roll_g2 st' = roll_g2 st \<and> roll_c st' = roll_c st"

text \<open>The values stored in the two arrays, without the links.\<close>

definition vals :: "engine \<Rightarrow> int list list \<times> int list list" where
  "vals st = (map (map val) (gridnodes st), map (map val) (perimeter st))"

text \<open>No perimeter node holds a negative value.\<close>

definition perimeter_nonneg :: "engine \<Rightarrow> bool" where
  "perimeter_nonneg st \<longleftrightarrow> list_all (list_all (\<lambda>nd. 0 \<le> val nd)) (perimeter st)"

subsection \<open>The linked topology\<close>

definition links :: "gridnode \<Rightarrow> nodeptr option \<times> nodeptr option \<times> nodeptr option \<times> nodeptr option" where
  "links nd = (up nd, down nd, left nd, right nd)"

text \<open>
  What \<open>mirrorfield_link\<close> leaves in field \<open>k\<close>, as (up, down, left, right): cell \<open>j\<close>
  sits in row \<open>j div GRID_SIZE\<close> and column \<open>j mod GRID_SIZE\<close>; the perimeter runs
  over the top, the right, the bottom and the left edge.
\<close>

definition grid_links ::
  "nat \<Rightarrow> nat \<Rightarrow> nat \<Rightarrow> nodeptr option \<times> nodeptr option \<times> nodeptr option \<times> nodeptr option" where
  "grid_links G k j =
     (Some (if j < G then Perimeter k j else Gridnode k (j - G)),
      Some (if j + G < G * G then Gridnode k (j + G) else Perimeter k (G * 2 + j mod G)),
      Some (if j mod G = 0 then Perimeter k (G * 3 + j div G) else Gridnode k (j - 1)),
      Some (if Suc j mod G = 0 then Perimeter k (G + j div G) else Gridnode k (j + 1)))"

definition perimeter_links ::
  "nat \<Rightarrow> nat \<Rightarrow> nat \<Rightarrow> nodeptr option \<times> nodeptr option \<times> nodeptr option \<times> nodeptr option" where
  "perimeter_links G k i =
     (if i < G then (None, Some (Gridnode k i), None, None)
      else if i < G * 2 then (None, None, Some (Gridnode k ((i - G) * G + (G - 1))), None)
      else if i < G * 3 then (Some (Gridnode k (G * (G - 1) + (i - G * 2))), None, None, None)
      else (None, None, None, Some (Gridnode k ((i - G * 3) * G))))"

definition linked :: "nat \<Rightarrow> nat \<Rightarrow> engine \<Rightarrow> bool" where
  "linked G N st \<longleftrightarrow>
     list_all (\<lambda>k. map links (gridnodes st ! k) = map (grid_links G k) [0..<G * G] \<and>
                   map links (perimeter st ! k) = map (perimeter_links G k) [0..<G * 4])
              [0..<N]"

text \<open>Every cell holds one of the four mirror codes: what \<open>mirrorfield_validate\<close> checks first.\<close>

definition valid_cells :: "engine \<Rightarrow> bool" where
  "valid_cells st \<longleftrightarrow>
     list_all (list_all (\<lambda>nd. MIRROR_BACKWARD \<le> val nd \<and> val nd \<le> MIRROR_NONE)) (gridnodes st)"

text \<open>A loaded, validated and linked engine.\<close>

definition ready :: "nat \<Rightarrow> nat \<Rightarrow> engine \<Rightarrow> bool" where
  "ready G N st \<longleftrightarrow> dims G N st \<and> linked G N st \<and> valid_cells st \<and> perimeter_nonneg st"

definition opposite :: "dir \<Rightarrow> dir" where
  "opposite d = (case d of DIR_UP \<Rightarrow> DIR_DOWN | DIR_DOWN \<Rightarrow> DIR_UP
                         | DIR_LEFT \<Rightarrow> DIR_RIGHT | DIR_RIGHT \<Rightarrow> DIR_LEFT)"

text \<open>
  One call of \<open>mirrorfield_crypt_char_advance\<close> seen as a step from the node and
  direction of the call to those of the recursive call; \<open>None\<close> when there is none.
\<close>

definition walk_step :: "nat \<Rightarrow> nat \<Rightarrow> engine \<Rightarrow> nodeptr \<times> dir \<Rightarrow> (nodeptr \<times> dir) option" where
  "walk_step G N st = (\<lambda>(p, d).
     case node_at G N st p of
       Inl f \<Rightarrow> None
     | Inr nd \<Rightarrow>
        (case link_of d nd of
           None \<Rightarrow> None
         | Some p' \<Rightarrow>
            (case node_at G N st p' of
               Inl f \<Rightarrow> None
             | Inr nd' \<Rightarrow> if val nd' < 0 then Some (p', reflect (val nd') d) else None)))"

text \<open>The first \<open>n\<close> states a partial step function runs through after \<open>x\<close>.\<close>

fun orbit :: "('a \<Rightarrow> 'a option) \<Rightarrow> nat \<Rightarrow> 'a \<Rightarrow> 'a list" where
  "orbit f 0 x = []"
| "orbit f (Suc n) x = (case f x of None \<Rightarrow> [] | Some y \<Rightarrow> y # orbit f n y)"

text \<open>The calls a traversal of field \<open>k\<close> can make from a cell: a cell and a direction.\<close>

definition cell_states :: "nat \<Rightarrow> nat \<Rightarrow> (nodeptr \<times> dir) set" where
  "cell_states G k =
     (\<lambda>(j, d). (Gridnode k j, d)) ` ({..<G * G} \<times> {DIR_UP, DIR_DOWN, DIR_LEFT, DIR_RIGHT})"

subsection \<open>The effect of the linker\<close>

text \<open>The array element a pointer refers to, and the pointers into the arrays.\<close>

definition raw :: "engine \<Rightarrow> nodeptr \<Rightarrow> gridnode" where
  "raw st p = (case p of Gridnode k j \<Rightarrow> gridnodes st ! k ! j | Perimeter k i \<Rightarrow> perimeter st ! k ! i)"

definition in_range :: "nat \<Rightarrow> nat \<Rightarrow> nodeptr \<Rightarrow> bool" where
  "in_range G N p = (case p of Gridnode k j \<Rightarrow> k < N \<and> j < G * G | Perimeter k i \<Rightarrow> k < N \<and> i < G * 4)"

text \<open>
  What the two loops of \<open>mirrorfield_link\<close> for column \<open>i\<close> of field \<open>k\<close> do to the node
  at \<open>q\<close>, and what the two loops for row \<open>i\<close> do; then the effect of all columns and
  rows of the field.
\<close>

definition col_eff :: "nat \<Rightarrow> nat \<Rightarrow> nat \<Rightarrow> nodeptr \<Rightarrow> gridnode \<Rightarrow> gridnode" where
  "col_eff G k i q nd =
     (case q of
        Perimeter k' i' \<Rightarrow>
          if k' = k \<and> i' = i then nd\<lparr>down := Some (Gridnode k i')\<rparr>
          else if k' = k \<and> i' = G * 2 + i
            then nd\<lparr>up := Some (Gridnode k (G * (G - 1) + (i' - G * 2)))\<rparr>
          else nd
      | Gridnode k' j' \<Rightarrow>
          if k' = k \<and> j' < G * G \<and> j' mod G = i
          then nd\<lparr>up := Some (if j' < G then Perimeter k j' else Gridnode k (j' - G)),
                  down := Some (if j' + G < G * G then Gridnode k (j' + G)
                                else Perimeter k (G * 2 + j' mod G))\<rparr>
          else nd)"

definition row_eff :: "nat \<Rightarrow> nat \<Rightarrow> nat \<Rightarrow> nodeptr \<Rightarrow> gridnode \<Rightarrow> gridnode" where
  "row_eff G k i q nd =
     (case q of
        Perimeter k' i' \<Rightarrow>
          if k' = k \<and> i' = G * 3 + i
            then nd\<lparr>right := Some (Gridnode k ((i' - G * 3) * G))\<rparr>
          else if k' = k \<and> i' = G + i
            then nd\<lparr>left := Some (Gridnode k ((i' - G) * G + (G - 1)))\<rparr>
          else nd
      | Gridnode k' j' \<Rightarrow>
          if k' = k \<and> j' < G * G \<and> j' div G = i
          then nd\<lparr>left := Some (if j' mod G = 0 then Perimeter k (G * 3 + j' div G)
                                          else Gridnode k (j' - 1)),
                  right := Some (if Suc j' mod G = 0 then Perimeter k (G + j' div G)
                                 else Gridnode k (j' + 1))\<rparr>
          else nd)"

definition field_eff :: "nat \<Rightarrow> nat \<Rightarrow> nodeptr \<Rightarrow> gridnode \<Rightarrow> gridnode" where
  "field_eff G k q nd =
     fold (\<lambda>i. row_eff G k i q) [0..<G] (fold (\<lambda>i. col_eff G k i q) [0..<G] nd)"

text \<open>No perimeter node has a link: the perimeter after \<open>mirrorfield_init\<close>.\<close>

definition unlinked :: "engine \<Rightarrow> bool" where
  "unlinked st \<longleftrightarrow>
     list_all (list_all (\<lambda>nd. links nd = (None, None, None, None))) (perimeter st)"

subsection \<open>The engine in operation\<close>

text \<open>
  The states the cipher runs in: the engine has been initialised and loaded,
  \<open>mirrorfield_validate\<close> has returned 1 and \<open>mirrorfield_link\<close> has been called; from
  then on the traversal, the rolling step and \<open>mirrorfield_crypt_char\<close> have been called
  any number of times, and have returned.
\<close>

inductive operational :: "nat \<Rightarrow> nat \<Rightarrow> engine \<Rightarrow> bool" for G N where
  load: "reachable G N st0 \<Longrightarrow>
     mirrorfield_validate G N (set_all G N cfg (mirrorfield_init G N st0)) = 1 \<Longrightarrow>
     operational G N (mirrorfield_link G N (set_all G N cfg (mirrorfield_init G N st0)))"
| advance: "operational G N st \<Longrightarrow>
     mirrorfield_crypt_char_advance n G N st p d = Some (Inr (t, st')) \<Longrightarrow> operational G N st'"
| roll: "operational G N st \<Longrightarrow>
     mirrorfield_roll_chars G N s e m st = Inr st' \<Longrightarrow> operational G N st'"
| crypt: "operational G N st \<Longrightarrow>
     mirrorfield_crypt_char n G N ch st = Some (Inr (rv, st')) \<Longrightarrow> operational G N st'"

subsection \<open>Three small engines\<close>

text \<open>
  \<open>GRID_SIZE = 2\<close>, \<open>MIRROR_FIELD_COUNT = 1\<close>: the mirrors \<open>' '\<close>, \<open>'\'\<close>, \<open>'\'\<close>, \<open>'/'\<close>
  and the perimeter bytes 0 to 7, loaded, and linked.
\<close>

definition demo_config :: "byte list" where
  "demo_config = [0x20, 0x5C, 0x5C, 0x2F, 0, 1, 2, 3, 4, 5, 6, 7]"

definition demo_engine :: engine where
  "demo_engine =
     mirrorfield_link 2 1 (set_all 2 1 demo_config (mirrorfield_init 2 1 (mirrorfield_start 2 1)))"

text \<open>
  \<open>GRID_SIZE = 1\<close>, \<open>MIRROR_FIELD_COUNT = 2\<close>: one mirror per field, \<open>'/'\<close> and \<open>'\'\<close>,
  and the perimeter bytes 0, 1, 2, 3 and 3, 2, 1, 0.
\<close>

definition demo_config2 :: "byte list" where
  "demo_config2 = [0x2F, 0x5C, 0, 1, 2, 3, 3, 2, 1, 0]"

definition demo_engine2 :: engine where
  "demo_engine2 =
     mirrorfield_link 1 2 (set_all 1 2 demo_config2 (mirrorfield_init 1 2 (mirrorfield_start 1 2)))"

text \<open>
  \<open>GRID_SIZE = 2\<close>, \<open>MIRROR_FIELD_COUNT = 1\<close>: four empty cells and the perimeter bytes
  \<open>'A'\<close> to \<open>'H'\<close>, loaded, and linked.
\<close>

definition demo_config3 :: "byte list" where
  "demo_config3 = [0x20, 0x20, 0x20, 0x20, 0x41, 0x42, 0x43, 0x44, 0x45, 0x46, 0x47, 0x48]"

definition demo_engine3 :: engine where
  "demo_engine3 =
     mirrorfield_link 2 1 (set_all 2 1 demo_config3 (mirrorfield_init 2 1 (mirrorfield_start 2 1)))"

section \<open>Basic facts\<close>

lemma node_upd_statics [simp]:
  "set_i (node_upd st p f) = set_i st" "set_j (node_upd st p f) = set_j st"
  "crypt_m (node_upd st p f) = crypt_m st" "roll_g1 (node_upd st p f) = roll_g1 st"
  "roll_g2 (node_upd st p f) = roll_g2 st" "roll_c (node_upd st p f) = roll_c st"
  by (simp_all add: node_upd_def split: nodeptr.splits)

lemma map_length_upd2: "map length (xs[k := (xs ! k)[j := v]]) = map length xs"
  by (cases "k < length xs") (auto simp: list_eq_iff_nth_eq nth_list_update)

lemma list_all_length_upd2:
  "list_all (\<lambda>row. length row = n) (xs[k := (xs ! k)[j := v]]) = list_all (\<lambda>row. length row = n) xs"
proof -
  have "list_all (\<lambda>row. length row = n) ys = list_all (\<lambda>l. l = n) (map length ys)" for ys :: "'a list list"
    by (simp add: list_all_iff)
  then show ?thesis by (simp only: map_length_upd2)
qed

lemma dims_node_upd [simp]: "dims G N (node_upd st p f) = dims G N st"
  by (cases p) (simp_all add: dims_def node_upd_def list_all_length_upd2)

lemma node_at_node_upd:
  assumes "dims G N st" "node_at G N st p = Inr nd"
  shows "node_at G N (node_upd st p f) q = (if q = p then Inr (f nd) else node_at G N st q)"
  using assms
  apply (cases p; cases q)
  apply (auto simp: dims_def node_upd_def node_at_def list_all_length nth_list_update split: if_splits)
  done

lemma rotate3: "(rotate_mirror ^^ 3) v = v"
  by (simp add: rotate_mirror_def numeral_3_eq_3)

lemma rotate_none: "(rotate_mirror ^^ n) MIRROR_NONE = MIRROR_NONE"
  by (induction n) (simp_all add: rotate_mirror_def)


lemma same_statics_refl [simp]: "same_statics st st"
  by (simp add: same_statics_def)

lemma same_statics_trans: "same_statics a b \<Longrightarrow> same_statics b c \<Longrightarrow> same_statics a c"
  by (simp add: same_statics_def)

lemma same_statics_node_upd [simp]: "same_statics st (node_upd st p f)"
  by (simp add: same_statics_def)

lemma same_statics_node_upd2: "same_statics st st1 \<Longrightarrow> same_statics st (node_upd st1 p f)"
  by (simp add: same_statics_def)

lemma advance_same_statics:
  "mirrorfield_crypt_char_advance n G N st p d = Some (Inr (t, st')) \<Longrightarrow> same_statics st st'"
proof (induction n arbitrary: p d t st')
  case 0
  then show ?case by simp
next
  case (Suc n)
  then show ?case
    by (auto split: sum.splits option.splits if_splits prod.splits intro: same_statics_node_upd2)
qed

lemma advance_dims:
  "mirrorfield_crypt_char_advance n G N st p d = Some (Inr (t, st')) \<Longrightarrow> dims G N st' = dims G N st"
proof (induction n arbitrary: p d t st')
  case 0
  then show ?case by simp
next
  case (Suc n)
  then show ?case
    by (auto split: sum.splits option.splits if_splits prod.splits)
qed

lemma advance_rotates:
  assumes "dims G N st"
    and "mirrorfield_crypt_char_advance n G N st p d = Some (Inr (t, st'))"
    and "node_at G N st q = Inr nd"
  shows "node_at G N st' q =
     Inr (nd\<lparr>val := (rotate_mirror ^^ count_list (advance_path n G N st p d) q) (val nd)\<rparr>)"
  using assms(2,3)
proof (induction n arbitrary: p d t st' q nd)
  case 0
  then show ?case by simp
next
  case (Suc n)
  from Suc.prems(1) obtain pn p' nd' where
    pn: "node_at G N st p = Inr pn" and p': "link_of d pn = Some p'"
    and nd': "node_at G N st p' = Inr nd'"
    by (auto split: sum.splits option.splits)
  show ?case
  proof (cases "val nd' < 0")
    case False
    with Suc.prems pn p' nd' show ?thesis by auto
  next
    case True
    with Suc.prems(1) pn p' nd' obtain st1 where
      rec: "mirrorfield_crypt_char_advance n G N st p' (reflect (val nd') d) = Some (Inr (t, st1))"
      and st': "st' = node_upd st1 p' (\<lambda>x. x\<lparr>val := rotate_mirror (val x)\<rparr>)"
      by (auto split: sum.splits option.splits prod.splits)
    have d1: "dims G N st1" using advance_dims [OF rec] assms(1) by simp
    have ih: "node_at G N st1 q' = Inr (nd''\<lparr>val := (rotate_mirror ^^ count_list (advance_path n G N st p' (reflect (val nd') d)) q') (val nd'')\<rparr>)"
      if "node_at G N st q' = Inr nd''" for q' nd''
      using Suc.IH [OF rec that] .
    show ?thesis
      using True pn p' nd' Suc.prems(2) ih [OF nd'] ih [OF Suc.prems(2)]
      by (auto simp: st' node_at_node_upd [OF d1 ih [OF nd']])
  qed
qed


lemma roll_chars_window:
  assumes "mirrorfield_roll_chars G N s e m st = Inr st'"
  shows "roll_g1 st' = roll_g1 (roll_advance G N st)"
    and "roll_g2 st' = roll_g2 (roll_advance G N st)"
    and "roll_c st' = roll_c (roll_advance G N st)"
    and "roll_g1 st < G * 4" and "roll_g2 st < G * 4"
  using assms
  by (auto simp: mirrorfield_roll_chars_def roll_advance_def Let_def
           split: if_splits sum.splits prod.splits)

lemma roll_chars_step:
  assumes "mirrorfield_roll_chars G N s e m st = Inr st'" and "roll_c st < N"
  shows "roll_c st' = (roll_c st + 1) mod N"
    and "roll_g1 st' = (roll_g1 st + (roll_c st + 1) div N) mod (G * 4)"
    and "roll_g2 st' = (roll_g2 st + (roll_c st + 1) div N) mod (G * 4)"
  using roll_chars_window [OF assms(1)] assms(2)
  by (auto simp: roll_advance_def)

lemma roll_calls_window:
  assumes "roll_calls G N cs st = Inr st'"
    and "roll_c st < N" and "roll_g1 st < G * 4" and "roll_g2 st < G * 4"
  shows "roll_c st' = (roll_c st + length cs) mod N \<and>
         roll_g1 st' = (roll_g1 st + (roll_c st + length cs) div N) mod (G * 4) \<and>
         roll_g2 st' = (roll_g2 st + (roll_c st + length cs) div N) mod (G * 4)"
  using assms
proof (induction cs arbitrary: st)
  case Nil
  then show ?case by simp
next
  case (Cons x cs)
  obtain s e m where x: "x = (s, e, m)" by (cases x)
  from Cons.prems(1) x obtain st1 where
    one: "mirrorfield_roll_chars G N s e m st = Inr st1" and rest: "roll_calls G N cs st1 = Inr st'"
    by (auto split: sum.splits)
  note step = roll_chars_step [OF one Cons.prems(2)]
  have b: "roll_c st1 < N" "roll_g1 st1 < G * 4" "roll_g2 st1 < G * 4"
    using step Cons.prems(2,3) by auto
  note ih = Cons.IH [OF rest b]
  show ?case
  proof (cases "roll_c st + 1 = N")
    case True
    then have "roll_c st1 = 0" "(roll_c st + 1) div N = 1" using step by auto
    moreover have "(roll_c st + length (x # cs)) div N = 1 + length cs div N"
      using True by (metis add.assoc add.commute div_add_self1 length_Cons plus_1_eq_Suc Cons.prems(2) less_nat_zero_code)
    moreover have "(roll_c st + length (x # cs)) mod N = length cs mod N"
      using True by (metis add.assoc add.commute mod_add_self1 length_Cons plus_1_eq_Suc)
    ultimately show ?thesis using ih step by (simp add: mod_simps add.assoc)
  next
    case False
    with Cons.prems(2) have lt: "roll_c st + 1 < N" by simp
    then have "roll_c st1 = roll_c st + 1" "(roll_c st + 1) div N = 0" using step by auto
    then show ?thesis using ih step Cons.prems(3,4) by (simp add: add.assoc)
  qed
qed


lemma roll_calls_snoc:
  "roll_calls G N (cs @ [(s, e, m)]) st =
     (case roll_calls G N cs st of Inl f \<Rightarrow> Inl f
      | Inr a \<Rightarrow> mirrorfield_roll_chars G N s e m a)"
  by (induction cs arbitrary: st) (auto split: sum.splits prod.splits)

text \<open>
  C6.  The roll positions \<open>g1\<close> and \<open>g2\<close> change once in every \<open>MIRROR_FIELD_COUNT\<close>
  calls of the rolling step.  Starting with the counter \<open>c\<close> below
  \<open>MIRROR_FIELD_COUNT\<close>, any \<open>MIRROR_FIELD_COUNT\<close> calls in a row that return move both
  positions forward by one modulo \<open>GRID_SIZE * 4\<close> and bring \<open>c\<close> back to where it was.
  Call number \<open>k\<close> of the round (counted from 0) is the one that moves them, and sets
  \<open>c\<close> to 0, exactly when \<open>c + k + 1 = MIRROR_FIELD_COUNT\<close>; every other call leaves
  both positions alone and adds one to \<open>c\<close>.
\<close>

theorem roll_window_cadence:
  assumes c: "roll_c st < N" and len: "length cs = N"
    and run: "roll_calls G N cs st = Inr st'"
  shows "roll_g1 st' = (roll_g1 st + 1) mod (G * 4) \<and>
         roll_g2 st' = (roll_g2 st + 1) mod (G * 4) \<and>
         roll_c st' = roll_c st \<and>
         (\<forall>k<N. \<forall>a b. roll_calls G N (take k cs) st = Inr a \<longrightarrow>
                       roll_calls G N (take (Suc k) cs) st = Inr b \<longrightarrow>
            (if roll_c st + k + 1 = N
             then roll_g1 b = (roll_g1 a + 1) mod (G * 4) \<and> roll_g1 b \<noteq> roll_g1 a \<and>
                  roll_g2 b = (roll_g2 a + 1) mod (G * 4) \<and> roll_g2 b \<noteq> roll_g2 a \<and>
                  roll_c b = 0
             else roll_g1 b = roll_g1 a \<and> roll_g2 b = roll_g2 a \<and> roll_c b = roll_c a + 1))"
proof -
  from c len obtain x cs' where cs: "cs = x # cs'" by (cases cs) auto
  obtain s e m where x: "x = (s, e, m)" by (cases x)
  from run cs x obtain st1 where one: "mirrorfield_roll_chars G N s e m st = Inr st1"
    by (auto split: sum.splits)
  have g: "roll_g1 st < G * 4" "roll_g2 st < G * 4"
    using roll_chars_window(4,5) [OF one] .
  have whole: "roll_g1 st' = (roll_g1 st + 1) mod (G * 4) \<and>
         roll_g2 st' = (roll_g2 st + 1) mod (G * 4) \<and> roll_c st' = roll_c st"
  proof -
    have "(roll_c st + N) div N = 1" using c by (subst div_add_self2) auto
    then show ?thesis using roll_calls_window [OF run c g] c len by simp
  qed
  have each: "(if roll_c st + k + 1 = N
             then roll_g1 b = (roll_g1 a + 1) mod (G * 4) \<and> roll_g1 b \<noteq> roll_g1 a \<and>
                  roll_g2 b = (roll_g2 a + 1) mod (G * 4) \<and> roll_g2 b \<noteq> roll_g2 a \<and>
                  roll_c b = 0
             else roll_g1 b = roll_g1 a \<and> roll_g2 b = roll_g2 a \<and> roll_c b = roll_c a + 1)"
    if k: "k < N" and a: "roll_calls G N (take k cs) st = Inr a"
      and b: "roll_calls G N (take (Suc k) cs) st = Inr b" for k a b
  proof -
    have tk: "take (Suc k) cs = take k cs @ [cs ! k]"
      using k len by (simp add: take_Suc_conv_app_nth)
    obtain s' e' m' where "cs ! k = (s', e', m')" by (cases "cs ! k")
    with b a have ab: "mirrorfield_roll_chars G N s' e' m' a = Inr b"
      by (simp add: tk roll_calls_snoc)
    have wa: "roll_c a = (roll_c st + k) mod N"
      "roll_g1 a = (roll_g1 st + (roll_c st + k) div N) mod (G * 4)"
      "roll_g2 a = (roll_g2 st + (roll_c st + k) div N) mod (G * 4)"
      using roll_calls_window [OF a c g] k len by simp_all
    have ca: "roll_c a < N" using wa(1) c by simp
    have ga: "roll_g1 a < G * 4" "roll_g2 a < G * 4"
      using roll_chars_window(4,5) [OF ab] .
    note step = roll_chars_step [OF ab ca]
    show ?thesis
    proof (cases "roll_c st + k + 1 = N")
      case True
      then have "roll_c st + k < N" by simp
      then have "roll_c a + 1 = N" using wa(1) True by simp
      then have "roll_c b = 0" "roll_g1 b = (roll_g1 a + 1) mod (G * 4)"
          "roll_g2 b = (roll_g2 a + 1) mod (G * 4)"
        using step by simp_all
      moreover have "(i + 1) mod (G * 4) \<noteq> i" if "i < G * 4" for i
      proof (cases "i + 1 = G * 4")
        case True
        then have "i \<noteq> 0" by presburger
        with True show ?thesis by simp
      next
        case False
        with that show ?thesis by simp
      qed
      ultimately show ?thesis using True ga by simp
    next
      case False
      have "roll_c a + 1 \<noteq> N"
      proof (cases "roll_c st + k < N")
        case True
        then show ?thesis using wa(1) False by simp
      next
        case False
        then have "roll_c st + k = N + (roll_c st + k - N)" "roll_c st + k - N < N - 1"
          using c k by auto
        then have "(roll_c st + k) mod N = roll_c st + k - N"
          by (metis add_lessD1 less_diff_conv mod_add_self1 mod_less)
        then show ?thesis using wa(1) \<open>roll_c st + k - N < N - 1\<close> by simp
      qed
      then have "roll_c a + 1 < N" using ca by simp
      then show ?thesis using False step ga by simp
    qed
  qed
  from whole each show ?thesis by blast
qed

theorem roll_window_cadence_witness:
  "\<exists>st'. roll_calls 1 2 [(0, 1, 0), (2, 3, 1)] demo_engine2 = Inr st' \<and>
     roll_c demo_engine2 < 2 \<and>
     roll_g1 st' = (roll_g1 demo_engine2 + 1) mod (1 * 4) \<and>
     roll_g2 st' = (roll_g2 demo_engine2 + 1) mod (1 * 4) \<and>
     roll_c st' = roll_c demo_engine2"
proof -
  have c: "roll_c demo_engine2 < 2" by code_simp
  have len: "length [(0::nat, 1::nat, 0::nat), (2, 3, 1)] = 2" by simp
  have "\<not> isl (roll_calls 1 2 [(0, 1, 0), (2, 3, 1)] demo_engine2)" by code_simp
  then obtain st' where run: "roll_calls 1 2 [(0, 1, 0), (2, 3, 1)] demo_engine2 = Inr st'"
    by (cases "roll_calls 1 2 [(0, 1, 0), (2, 3, 1)] demo_engine2") auto
  from roll_window_cadence [OF c len run] c run show ?thesis by blast
qed

lemma window_opposite_roll_advance:
  "window_opposite G st \<Longrightarrow> window_opposite G (roll_advance G N st)"
  by (auto simp: window_opposite_def roll_advance_def mod_simps ac_simps)

lemma window_opposite_cong:
  "roll_g1 st' = roll_g1 st \<Longrightarrow> roll_g2 st' = roll_g2 st \<Longrightarrow>
   window_opposite G st' = window_opposite G st"
  by (simp add: window_opposite_def)

lemma window_opposite_same_statics:
  "same_statics st st' \<Longrightarrow> window_opposite G st' = window_opposite G st"
  by (simp add: window_opposite_def same_statics_def)

lemma roll_chars_window_opposite:
  assumes "mirrorfield_roll_chars G N s e m st = Inr st'" and "window_opposite G st"
  shows "window_opposite G st'"
  using window_opposite_roll_advance [OF assms(2), of N] roll_chars_window(1,2) [OF assms(1)]
  by (simp add: window_opposite_def)

lemma fold_same_statics:
  assumes "\<And>x s. same_statics s (f x s)"
  shows "same_statics st (fold f xs st)"
proof (induction xs arbitrary: st)
  case Nil
  show ?case by simp
next
  case (Cons x xs)
  show ?case using same_statics_trans [OF assms [of st x] Cons.IH [of "f x st"]] by simp
qed

lemma init_same_statics: "same_statics st (mirrorfield_init G N st)"
  unfolding mirrorfield_init_def
  by (rule fold_same_statics) (simp add: same_statics_def)

lemma link_down_same_statics: "same_statics (fst x) (fst (link_down k j x))"
  by (cases x) (simp add: link_down_def Let_def same_statics_def)

lemma link_right_same_statics: "same_statics (fst x) (fst (link_right k j x))"
  by (cases x) (simp add: link_right_def Let_def same_statics_def)

lemma link_col_loop_same_statics: "same_statics (fst x) (fst (link_col_loop G k j x))"
proof (induction G k j x rule: link_col_loop.induct)
  case (1 G k j x)
  show ?case
  proof (cases "j < G * G")
    case True
    from same_statics_trans [OF link_down_same_statics "1.IH" [OF True]]
    show ?thesis using True by (subst link_col_loop.simps) simp
  next
    case False
    then show ?thesis by (subst link_col_loop.simps) simp
  qed
qed

lemma link_row_loop_same_statics: "same_statics (fst x) (fst (link_row_loop G k i j x))"
proof (induction G k i j x rule: link_row_loop.induct)
  case (1 G k i j x)
  show ?case
  proof (cases "j < i * G + G")
    case True
    from same_statics_trans [OF link_right_same_statics "1.IH" [OF True]]
    show ?thesis using True by (subst link_row_loop.simps) simp
  next
    case False
    then show ?thesis by (subst link_row_loop.simps) simp
  qed
qed

lemma link_col_same_statics: "same_statics st (link_col G k i st)"
  using link_col_loop_same_statics [of "(st, Perimeter k i)" G k i]
  by (auto simp: link_col_def Let_def split: prod.splits intro!: same_statics_node_upd2)

lemma link_row_same_statics: "same_statics st (link_row G k i st)"
  using link_row_loop_same_statics [of "(st, Perimeter k (i + G * 3))" G k i "i * G"]
  by (auto simp: link_row_def Let_def split: prod.splits intro!: same_statics_node_upd2)

lemma link_field_same_statics: "same_statics st (link_field G k st)"
  unfolding link_field_def
  by (rule same_statics_trans [OF fold_same_statics fold_same_statics])
     (rule link_col_same_statics link_row_same_statics)+

lemma link_same_statics: "same_statics st (mirrorfield_link G N st)"
  unfolding mirrorfield_link_def
  by (rule fold_same_statics) (rule link_field_same_statics)

lemma set_window:
  "roll_g1 (snd (mirrorfield_set G N ch st)) = roll_g1 st"
  "roll_g2 (snd (mirrorfield_set G N ch st)) = roll_g2 st"
  "roll_c (snd (mirrorfield_set G N ch st)) = roll_c st"
  "crypt_m (snd (mirrorfield_set G N ch st)) = crypt_m st"
  by (simp_all add: mirrorfield_set_def Let_def set_grid_val_def)

lemma crypt_char_window_opposite:
  assumes "mirrorfield_crypt_char n G N ch st = Some (Inr (rv, st'))" and "window_opposite G st"
  shows "window_opposite G st'"
proof -
  from assms(1) obtain i d endnode st1 sv ev st2 where
    adv: "mirrorfield_crypt_char_advance n G N st (Perimeter (crypt_m st) i) d = Some (Inr (endnode, st1))"
    and roll: "mirrorfield_roll_chars G N sv ev (crypt_m st) st1 = Inr st2"
    and st': "st' = st2\<lparr>crypt_m := (crypt_m st + 1) mod N\<rparr>"
    by (auto simp: mirrorfield_crypt_char_def Let_def
             split: if_splits option.splits sum.splits prod.splits)
  have "window_opposite G st1"
    using window_opposite_same_statics [OF advance_same_statics [OF adv]] assms(2) by simp
  from roll_chars_window_opposite [OF roll this] show ?thesis
    by (simp add: st' window_opposite_def)
qed

lemma reachable_set_all:
  "reachable G N st \<Longrightarrow> reachable G N (set_all G N chs st)"
  by (induction chs arbitrary: st) (auto intro: reachable.set)

lemma roll_window_opposite_aux:
  assumes "reachable G N st"
  shows "window_opposite G st"
  using assms
proof (induction rule: reachable.induct)
  case start
  show ?case by (simp add: window_opposite_def mirrorfield_start_def)
next
  case (init st)
  then show ?case using window_opposite_same_statics [OF init_same_statics] by simp
next
  case (set st ch)
  then show ?case using window_opposite_cong [OF set_window(1,2)] by simp
next
  case (link st)
  then show ?case using window_opposite_same_statics [OF link_same_statics] by simp
next
  case (advance st n p d t st')
  then show ?case using window_opposite_same_statics [OF advance_same_statics] by simp
next
  case (roll st s e m st')
  then show ?case using roll_chars_window_opposite by simp
next
  case (crypt st n ch rv st')
  then show ?case using crypt_char_window_opposite by simp
qed

text \<open>
  C10.  In every state the program reaches, the two roll positions are opposite:
  \<open>g2 = (g1 + GRID_SIZE * 2) mod (GRID_SIZE * 4)\<close>.  They start as 0 and
  \<open>GRID_SIZE * 2\<close>, only the rolling step assigns them, and it moves both by one.
\<close>

theorem roll_window_opposite:
  assumes "reachable G N st"
  shows "window_opposite G st"
  using assms by (rule roll_window_opposite_aux)


theorem roll_window_opposite_witness:
  "reachable 2 1 demo_engine \<and> window_opposite 2 demo_engine"
proof -
  have r: "reachable 2 1 demo_engine"
    unfolding demo_engine_def
    by (intro reachable.link reachable_set_all reachable.init reachable.start)
  from roll_window_opposite [OF r] r show ?thesis by simp
qed

section \<open>Reflection and rotation\<close>

text \<open>
  C7.  A call that steps from \<open>p\<close> in direction \<open>d\<close> onto a cell \<open>p'\<close> of negative value
  \<open>v\<close> goes on from \<open>p'\<close> in the direction \<open>reflect v d\<close>: a forward mirror turns down
  to left, left to down, right to up and up to right; a backward mirror turns down to
  right, left to up, right to down and up to left; an empty cell and a straight mirror
  keep the direction.
\<close>

theorem reflection_rule:
  assumes "node_at G N st p = Inr nd" and "link_of d nd = Some p'"
    and "node_at G N st p' = Inr nd'" and "val nd' < 0"
  shows "mirrorfield_crypt_char_advance (Suc n) G N st p d =
           (case mirrorfield_crypt_char_advance n G N st p' (reflect (val nd') d) of
              None \<Rightarrow> None
            | Some (Inl f) \<Rightarrow> Some (Inl f)
            | Some (Inr (t, st1)) \<Rightarrow>
                Some (Inr (t, node_upd st1 p' (\<lambda>x. x\<lparr>val := rotate_mirror (val x)\<rparr>)))) \<and>
         reflect MIRROR_FORWARD DIR_DOWN = DIR_LEFT \<and>
         reflect MIRROR_FORWARD DIR_LEFT = DIR_DOWN \<and>
         reflect MIRROR_FORWARD DIR_RIGHT = DIR_UP \<and>
         reflect MIRROR_FORWARD DIR_UP = DIR_RIGHT \<and>
         reflect MIRROR_BACKWARD DIR_DOWN = DIR_RIGHT \<and>
         reflect MIRROR_BACKWARD DIR_LEFT = DIR_UP \<and>
         reflect MIRROR_BACKWARD DIR_RIGHT = DIR_DOWN \<and>
         reflect MIRROR_BACKWARD DIR_UP = DIR_LEFT \<and>
         reflect MIRROR_NONE d' = d' \<and>
         reflect MIRROR_STRAIGHT d' = d'"
  using assms by (simp add: reflect_def)

theorem reflection_rule_witness:
  "node_at 2 1 demo_engine (Gridnode 0 0) =
     Inr \<lparr>val = MIRROR_NONE, up = Some (Perimeter 0 0), down = Some (Gridnode 0 2),
          left = Some (Perimeter 0 6), right = Some (Gridnode 0 1)\<rparr> \<and>
   node_at 2 1 demo_engine (Gridnode 0 2) =
     Inr \<lparr>val = MIRROR_BACKWARD, up = Some (Gridnode 0 0), down = Some (Perimeter 0 4),
          left = Some (Perimeter 0 7), right = Some (Gridnode 0 3)\<rparr> \<and>
   mirrorfield_crypt_char_advance (Suc 4) 2 1 demo_engine (Gridnode 0 0) DIR_DOWN =
     (case mirrorfield_crypt_char_advance 4 2 1 demo_engine (Gridnode 0 2) DIR_RIGHT of
        None \<Rightarrow> None
      | Some (Inl f) \<Rightarrow> Some (Inl f)
      | Some (Inr (t, st1)) \<Rightarrow>
          Some (Inr (t, node_upd st1 (Gridnode 0 2) (\<lambda>x. x\<lparr>val := rotate_mirror (val x)\<rparr>))))"
proof -
  have a: "node_at 2 1 demo_engine (Gridnode 0 0) =
     Inr \<lparr>val = MIRROR_NONE, up = Some (Perimeter 0 0), down = Some (Gridnode 0 2),
          left = Some (Perimeter 0 6), right = Some (Gridnode 0 1)\<rparr>"
    by code_simp
  have b: "node_at 2 1 demo_engine (Gridnode 0 2) =
     Inr \<lparr>val = MIRROR_BACKWARD, up = Some (Gridnode 0 0), down = Some (Perimeter 0 4),
          left = Some (Perimeter 0 7), right = Some (Gridnode 0 3)\<rparr>"
    by code_simp
  have l: "link_of DIR_DOWN \<lparr>val = MIRROR_NONE, up = Some (Perimeter 0 0), down = Some (Gridnode 0 2),
          left = Some (Perimeter 0 6), right = Some (Gridnode 0 1)\<rparr> = Some (Gridnode 0 2)"
    by (simp add: link_of_def)
  have v: "val \<lparr>val = MIRROR_BACKWARD, up = Some (Gridnode 0 0), down = Some (Perimeter 0 4),
          left = Some (Perimeter 0 7), right = Some (Gridnode 0 3)\<rparr> < 0"
    by simp
  from reflection_rule [OF a l b v, of 4] a b show ?thesis
    by (simp add: reflect_def)
qed


text \<open>
  C8.  When a traversal returns, every node has its links as before and the value it had,
  rotated once for each time the traversal passed through it.  One rotation takes
  forward to straight, straight to backward and backward to forward, so three rotations
  are the identity; the empty cell does not rotate.
\<close>

theorem mirror_rotation_period:
  assumes "dims G N st"
    and "mirrorfield_crypt_char_advance n G N st p d = Some (Inr (t, st'))"
    and "node_at G N st q = Inr nd"
  shows "node_at G N st' q =
           Inr (nd\<lparr>val := (rotate_mirror ^^ count_list (advance_path n G N st p d) q) (val nd)\<rparr>) \<and>
         rotate_mirror MIRROR_FORWARD = MIRROR_STRAIGHT \<and>
         rotate_mirror MIRROR_STRAIGHT = MIRROR_BACKWARD \<and>
         rotate_mirror MIRROR_BACKWARD = MIRROR_FORWARD \<and>
         (rotate_mirror ^^ 3) v = v \<and>
         (rotate_mirror ^^ k) MIRROR_NONE = MIRROR_NONE"
  using advance_rotates [OF assms] rotate3 [of v] rotate_none [of k]
  by (simp add: rotate_mirror_def)

theorem mirror_rotation_period_witness:
  "\<exists>t st'. mirrorfield_crypt_char_advance 6 2 1 demo_engine (Perimeter 0 0) DIR_DOWN
             = Some (Inr (t, st')) \<and>
     dims 2 1 demo_engine \<and>
     node_at 2 1 demo_engine (Gridnode 0 1) =
       Inr \<lparr>val = MIRROR_BACKWARD, up = Some (Perimeter 0 1), down = Some (Gridnode 0 3),
            left = Some (Gridnode 0 0), right = Some (Perimeter 0 2)\<rparr> \<and>
     node_at 2 1 st' (Gridnode 0 1) =
       Inr \<lparr>val = MIRROR_FORWARD, up = Some (Perimeter 0 1), down = Some (Gridnode 0 3),
            left = Some (Gridnode 0 0), right = Some (Perimeter 0 2)\<rparr>"
proof -
  have d: "dims 2 1 demo_engine" by code_simp
  have q: "node_at 2 1 demo_engine (Gridnode 0 1) =
       Inr \<lparr>val = MIRROR_BACKWARD, up = Some (Perimeter 0 1), down = Some (Gridnode 0 3),
            left = Some (Gridnode 0 0), right = Some (Perimeter 0 2)\<rparr>"
    by code_simp
  have "case mirrorfield_crypt_char_advance 6 2 1 demo_engine (Perimeter 0 0) DIR_DOWN of
          Some (Inr x) \<Rightarrow> True | _ \<Rightarrow> False"
    by code_simp
  then obtain t st' where
    a: "mirrorfield_crypt_char_advance 6 2 1 demo_engine (Perimeter 0 0) DIR_DOWN = Some (Inr (t, st'))"
    by (auto split: option.splits sum.splits)
  have c: "count_list (advance_path 6 2 1 demo_engine (Perimeter 0 0) DIR_DOWN) (Gridnode 0 1) = 1"
    by code_simp
  from mirror_rotation_period [OF d a q] a d q c show ?thesis
    by (simp add: rotate_mirror_def)
qed

section \<open>What every reachable state satisfies\<close>

lemma map_map_upd2:
  assumes "\<And>x. h (f x) = h x"
  shows "map (map h) (xs[k := (xs ! k)[j := f (xs ! k ! j)]]) = map (map h) xs"
proof (cases "k < length xs")
  case True
  have "map h ((xs ! k)[j := f (xs ! k ! j)]) = map h (xs ! k)"
    by (cases "j < length (xs ! k)") (auto simp: list_eq_iff_nth_eq nth_list_update assms)
  with True show ?thesis
    by (auto simp: list_eq_iff_nth_eq nth_list_update)
next
  case False
  then have "xs[k := (xs ! k)[j := f (xs ! k ! j)]] = xs"
    by (intro list_update_beyond) (simp add: not_less)
  then show ?thesis by simp
qed

lemma vals_node_upd:
  assumes "\<And>x. val (f x) = val x"
  shows "vals (node_upd st p f) = vals st"
  by (cases p) (simp_all add: vals_def node_upd_def map_map_upd2 [of val f, OF assms])

lemma dims_vals:
  "dims G N st \<longleftrightarrow>
     length (fst (vals st)) = N \<and> list_all (\<lambda>r. length r = G * G) (fst (vals st)) \<and>
     length (snd (vals st)) = N \<and> list_all (\<lambda>r. length r = G * 4) (snd (vals st))"
  by (simp add: dims_def vals_def list_all_iff)

lemma perimeter_nonneg_vals:
  "perimeter_nonneg st \<longleftrightarrow> list_all (list_all (\<lambda>v. 0 \<le> v)) (snd (vals st))"
  by (simp add: perimeter_nonneg_def vals_def list_all_iff)

lemma vals_eq_dims: "vals st' = vals st \<Longrightarrow> dims G N st' = dims G N st"
  by (simp add: dims_vals)

lemma vals_eq_nonneg: "vals st' = vals st \<Longrightarrow> perimeter_nonneg st' = perimeter_nonneg st"
  by (simp add: perimeter_nonneg_vals)

lemma fold_vals:
  assumes "\<And>x s. vals (f x s) = vals s"
  shows "vals (fold f xs st) = vals st"
  by (induction xs arbitrary: st) (simp_all add: assms)

lemma link_down_vals: "vals (fst (link_down k j x)) = vals (fst x)"
  by (cases x) (simp add: link_down_def Let_def vals_node_upd)

lemma link_right_vals: "vals (fst (link_right k j x)) = vals (fst x)"
  by (cases x) (simp add: link_right_def Let_def vals_node_upd)

lemma link_col_loop_vals: "vals (fst (link_col_loop G k j x)) = vals (fst x)"
proof (induction G k j x rule: link_col_loop.induct)
  case (1 G k j x)
  show ?case
  proof (cases "j < G * G")
    case True
    with "1.IH" [OF True] show ?thesis
      by (subst link_col_loop.simps) (simp add: link_down_vals)
  next
    case False
    then show ?thesis by (subst link_col_loop.simps) simp
  qed
qed

lemma link_row_loop_vals: "vals (fst (link_row_loop G k i j x)) = vals (fst x)"
proof (induction G k i j x rule: link_row_loop.induct)
  case (1 G k i j x)
  show ?case
  proof (cases "j < i * G + G")
    case True
    with "1.IH" [OF True] show ?thesis
      by (subst link_row_loop.simps) (simp add: link_right_vals)
  next
    case False
    then show ?thesis by (subst link_row_loop.simps) simp
  qed
qed

lemma link_col_vals: "vals (link_col G k i st) = vals st"
  using link_col_loop_vals [of G k i "(st, Perimeter k i)"]
  by (auto simp: link_col_def Let_def vals_node_upd split: prod.splits)

lemma link_row_vals: "vals (link_row G k i st) = vals st"
  using link_row_loop_vals [of G k i "i * G" "(st, Perimeter k (i + G * 3))"]
  by (auto simp: link_row_def Let_def vals_node_upd split: prod.splits)

lemma link_vals: "vals (mirrorfield_link G N st) = vals st"
  unfolding mirrorfield_link_def link_field_def
  by (simp add: fold_vals link_col_vals link_row_vals)

lemma rotate_nonneg: "0 \<le> v \<Longrightarrow> (rotate_mirror ^^ k) v = v"
  by (induction k) (simp_all add: rotate_mirror_def)

lemma dims_nth:
  assumes "dims G N st" and "k < N"
  shows "length (perimeter st ! k) = G * 4" and "length (gridnodes st ! k) = G * G"
    and "length (perimeter st) = N" and "length (gridnodes st) = N"
  using assms by (simp_all add: dims_def list_all_length)

lemma advance_perimeter:
  assumes d: "dims G N st" and nn: "perimeter_nonneg st"
    and a: "mirrorfield_crypt_char_advance n G N st p d = Some (Inr (t, st'))"
  shows "perimeter st' = perimeter st"
proof -
  have d': "dims G N st'" using advance_dims [OF a] d by simp
  have row: "perimeter st' ! k = perimeter st ! k" if k: "k < N" for k
  proof (rule nth_equalityI)
    show "length (perimeter st' ! k) = length (perimeter st ! k)"
      using dims_nth(1) [OF d k] dims_nth(1) [OF d' k] by simp
  next
    fix i assume "i < length (perimeter st' ! k)"
    then have i: "i < G * 4" using dims_nth(1) [OF d' k] by simp
    then have "i < length (perimeter st ! k)" using dims_nth(1) [OF d k] by simp
    moreover have "k < length (perimeter st)" using dims_nth(3) [OF d k] k by simp
    ultimately have v: "0 \<le> val (perimeter st ! k ! i)"
      using nn by (simp add: perimeter_nonneg_def list_all_length)
    have "node_at G N st (Perimeter k i) = Inr (perimeter st ! k ! i)"
      using k i by (simp add: node_at_def)
    from advance_rotates [OF d a this] v k i
    show "perimeter st' ! k ! i = perimeter st ! k ! i"
      by (simp add: node_at_def rotate_nonneg)
  qed
  show ?thesis
  proof (rule nth_equalityI)
    show "length (perimeter st') = length (perimeter st)"
      using d d' by (simp add: dims_def)
  next
    fix k assume "k < length (perimeter st')"
    then have "k < N" using d' by (simp add: dims_def)
    then show "perimeter st' ! k = perimeter st ! k" by (rule row)
  qed
qed

lemma roll_search_found:
  "roll_search n row x i = Inr r \<Longrightarrow> r < n \<and> val (row ! r) = x"
proof (induction n row x i rule: roll_search.induct)
  case (1 n row x i)
  from "1.prems" show ?case
    by (subst (asm) roll_search.simps) (auto split: if_splits dest: "1.IH" [rotated -1])
qed

lemma map_val_roll_swap:
  "map val (roll_swap row i g) = (map val row)[i := map val row ! g, g := map val row ! i]"
  if "i < length row" "g < length row"
  using that by (auto simp: roll_swap_def Let_def map_update list_eq_iff_nth_eq nth_list_update)

lemma length_roll_swap [simp]: "length (roll_swap row i g) = length row"
  by (simp add: roll_swap_def Let_def)

lemma mset_roll_swap:
  assumes "i < length row" "g < length row"
  shows "mset (map val (roll_swap row i g)) = mset (map val row)"
  unfolding map_val_roll_swap [OF assms]
  by (rule mset_swap) (simp_all add: assms)

lemma roll_chars_perimeter:
  assumes d: "dims G N st" and r: "mirrorfield_roll_chars G N s e m st = Inr st'"
  shows "\<exists>row. perimeter st' = (perimeter st)[m := row] \<and> length row = G * 4 \<and>
           mset (map val row) = mset (map val (perimeter st ! m)) \<and> m < N"
proof -
  from r have m: "m < N"
    by (auto simp: mirrorfield_roll_chars_def split: if_splits)
  let ?row = "perimeter st ! m"
  have len: "length ?row = G * 4" using dims_nth(1) [OF d m] .
  from r obtain x1 x2 i i2 where
    i: "roll_search (G * 4) ?row x1 0 = Inr i" and g1: "roll_g1 st < G * 4"
    and i2: "roll_search (G * 4) (roll_swap ?row i (roll_g1 st)) x2 0 = Inr i2"
    and g2: "roll_g2 st < G * 4"
    and p: "perimeter st' = (perimeter st)[m := roll_swap (roll_swap ?row i (roll_g1 st)) i2 (roll_g2 st)]"
    by (auto simp: mirrorfield_roll_chars_def Let_def roll_advance_def
             split: if_splits sum.splits prod.splits)
  have "i < G * 4" "i2 < G * 4"
    using roll_search_found [OF i] roll_search_found [OF i2] by simp_all
  then have "mset (map val (roll_swap (roll_swap ?row i (roll_g1 st)) i2 (roll_g2 st))) = mset (map val ?row)"
    using g1 g2 len by (simp only: mset_roll_swap length_roll_swap)
  with p len m show ?thesis
    by (intro exI [of _ "roll_swap (roll_swap ?row i (roll_g1 st)) i2 (roll_g2 st)"]) simp
qed


lemma fold_upd_length [simp]: "length (fold (\<lambda>i r. r[i := F i r]) js row) = length row"
  by (induction js arbitrary: row) simp_all

lemma fold_upd_nth:
  assumes "distinct js" and "k < length row"
  shows "fold (\<lambda>i r. r[i := F (r ! i)]) js row ! k = (if k \<in> set js then F (row ! k) else row ! k)"
  using assms
proof (induction js arbitrary: row)
  case Nil
  then show ?case by simp
next
  case (Cons j js)
  from Cons.prems(1) have "k \<in> set js \<Longrightarrow> j \<noteq> k" by auto
  then have "k \<in> set js \<Longrightarrow> row[j := F (row ! j)] ! k = row ! k"
    by simp
  with Cons show ?case by (auto simp: nth_list_update)
qed

lemma init_row_eq:
  assumes "length row = n"
  shows "init_row n row = replicate n null_node"
proof (rule nth_equalityI)
  show "length (init_row n row) = length (replicate n null_node)"
    using assms by (simp add: init_row_def)
next
  fix k assume "k < length (init_row n row)"
  then have k: "k < n" using assms by (simp add: init_row_def)
  then show "init_row n row ! k = replicate n null_node ! k"
    using fold_upd_nth [of "[0..<n]" k row "\<lambda>_. null_node"] assms
    by (simp add: init_row_def)
qed

lemma init_arrays:
  "gridnodes (fold (\<lambda>j s. s\<lparr>gridnodes := (gridnodes s)[j := init_row a (gridnodes s ! j)],
                   perimeter := (perimeter s)[j := init_row b (perimeter s ! j)]\<rparr>) js st) =
     fold (\<lambda>j g. g[j := init_row a (g ! j)]) js (gridnodes st)"
  "perimeter (fold (\<lambda>j s. s\<lparr>gridnodes := (gridnodes s)[j := init_row a (gridnodes s ! j)],
                   perimeter := (perimeter s)[j := init_row b (perimeter s ! j)]\<rparr>) js st) =
     fold (\<lambda>j g. g[j := init_row b (g ! j)]) js (perimeter st)"
  by (induction js arbitrary: st) simp_all

lemma init_rows_eq:
  assumes "length g = N" and "list_all (\<lambda>row. length row = n) g"
  shows "fold (\<lambda>j g. g[j := init_row n (g ! j)]) [0..<N] g = replicate N (replicate n null_node)"
proof (rule nth_equalityI)
  show "length (fold (\<lambda>j g. g[j := init_row n (g ! j)]) [0..<N] g) = length (replicate N (replicate n null_node))"
    using assms by simp
next
  fix k assume "k < length (fold (\<lambda>j g. g[j := init_row n (g ! j)]) [0..<N] g)"
  then have k: "k < N" using assms by simp
  then have "length (g ! k) = n" using assms by (simp add: list_all_length)
  then show "fold (\<lambda>j g. g[j := init_row n (g ! j)]) [0..<N] g ! k = replicate N (replicate n null_node) ! k"
    using fold_upd_nth [of "[0..<N]" k g "init_row n"] k assms(1)
    by (simp add: init_row_eq)
qed

lemma init_eq:
  assumes "dims G N st"
  shows "mirrorfield_init G N st =
     st\<lparr>gridnodes := replicate N (replicate (G * G) null_node),
        perimeter := replicate N (replicate (G * 4) null_node)\<rparr>"
proof (rule engine.equality)
  show "gridnodes (mirrorfield_init G N st) = gridnodes (st\<lparr>gridnodes := replicate N (replicate (G * G) null_node),
        perimeter := replicate N (replicate (G * 4) null_node)\<rparr>)"
    using assms by (simp add: mirrorfield_init_def init_arrays init_rows_eq dims_def)
  show "perimeter (mirrorfield_init G N st) = perimeter (st\<lparr>gridnodes := replicate N (replicate (G * G) null_node),
        perimeter := replicate N (replicate (G * 4) null_node)\<rparr>)"
    using assms by (simp add: mirrorfield_init_def init_arrays init_rows_eq dims_def)
qed (use init_same_statics [of st G N] in \<open>simp_all add: same_statics_def\<close>)

lemma dims_start: "dims G N (mirrorfield_start G N)"
  by (simp add: dims_def mirrorfield_start_def list_all_length)


lemma nonneg_start: "perimeter_nonneg (mirrorfield_start G N)"
  by (simp add: perimeter_nonneg_def mirrorfield_start_def list_all_length null_node_def)

lemma init_inv:
  assumes "dims G N st"
  shows "dims G N (mirrorfield_init G N st)" and "perimeter_nonneg (mirrorfield_init G N st)"
  using assms
  by (simp_all add: init_eq dims_def perimeter_nonneg_def list_all_length null_node_def)

lemma list_all_update:
  assumes "list_all P xs" and "k < length xs \<Longrightarrow> P x"
  shows "list_all P (xs[k := x])"
proof (cases "k < length xs")
  case True
  with assms show ?thesis by (auto simp: list_all_length nth_list_update)
next
  case False
  then have "xs[k := x] = xs" by (intro list_update_beyond) (simp add: not_less)
  with assms(1) show ?thesis by simp
qed

lemma perimeter_nonneg_node_upd:
  assumes "perimeter_nonneg st"
    and "\<And>k i x. p = Perimeter k i \<Longrightarrow> 0 \<le> val (f x)"
  shows "perimeter_nonneg (node_upd st p f)"
proof (cases p)
  case (Gridnode k j)
  with assms(1) show ?thesis by (simp add: node_upd_def perimeter_nonneg_def)
next
  case (Perimeter k i)
  have "list_all (list_all (\<lambda>nd. 0 \<le> val nd))
          ((perimeter st)[k := (perimeter st ! k)[i := f (perimeter st ! k ! i)]])"
  proof (rule list_all_update)
    show "list_all (list_all (\<lambda>nd. 0 \<le> val nd)) (perimeter st)"
      using assms(1) by (simp add: perimeter_nonneg_def)
  next
    assume "k < length (perimeter st)"
    with assms(1) have "list_all (\<lambda>nd. 0 \<le> val nd) (perimeter st ! k)"
      by (simp add: perimeter_nonneg_def list_all_length)
    then show "list_all (\<lambda>nd. 0 \<le> val nd) ((perimeter st ! k)[i := f (perimeter st ! k ! i)])"
      by (rule list_all_update) (rule assms(2) [OF Perimeter])
  qed
  then show ?thesis by (simp add: Perimeter node_upd_def perimeter_nonneg_def)
qed

lemma set_inv:
  assumes "dims G N st" and "perimeter_nonneg st"
  shows "dims G N (snd (mirrorfield_set G N ch st))"
    and "perimeter_nonneg (snd (mirrorfield_set G N ch st))"
proof -
  have d: "dims G N (s\<lparr>set_i := a\<rparr>) = dims G N s" "dims G N (s\<lparr>set_j := a\<rparr>) = dims G N s" for s a
    by (simp_all add: dims_def)
  have n: "perimeter_nonneg (s\<lparr>set_i := a\<rparr>) = perimeter_nonneg s"
    "perimeter_nonneg (s\<lparr>set_j := a\<rparr>) = perimeter_nonneg s" for s a
    by (simp_all add: perimeter_nonneg_def)
  show "dims G N (snd (mirrorfield_set G N ch st))"
    using assms(1) by (simp add: mirrorfield_set_def Let_def set_grid_val_def d)
  show "perimeter_nonneg (snd (mirrorfield_set G N ch st))"
    using assms(2)
    by (auto simp: mirrorfield_set_def Let_def set_grid_val_def n intro!: perimeter_nonneg_node_upd)
qed

lemma roll_chars_gridnodes:
  "mirrorfield_roll_chars G N s e m st = Inr st' \<Longrightarrow> gridnodes st' = gridnodes st"
  by (auto simp: mirrorfield_roll_chars_def Let_def roll_advance_def
           split: if_splits sum.splits prod.splits)

lemma roll_chars_inv:
  assumes d: "dims G N st" and nn: "perimeter_nonneg st"
    and r: "mirrorfield_roll_chars G N s e m st = Inr st'"
  shows "dims G N st'" and "perimeter_nonneg st'"
proof -
  from roll_chars_perimeter [OF d r] obtain row where
    p: "perimeter st' = (perimeter st)[m := row]" and len: "length row = G * 4"
    and ms: "mset (map val row) = mset (map val (perimeter st ! m))" and m: "m < N"
    by blast
  have "list_all (\<lambda>r. length r = G * 4) ((perimeter st)[m := row])"
    using d len by (intro list_all_update) (simp_all add: dims_def)
  then show "dims G N st'"
    using d roll_chars_gridnodes [OF r] by (simp add: dims_def p)
  have "set (map val row) = set (map val (perimeter st ! m))"
    using ms by (rule mset_eq_setD)
  moreover have "list_all (\<lambda>v. 0 \<le> v) (map val (perimeter st ! m))"
    using nn m d by (simp add: perimeter_nonneg_def list_all_length dims_def)
  ultimately have "list_all (\<lambda>v. 0 \<le> v) (map val row)"
    unfolding list_all_iff by simp
  then have "list_all (\<lambda>nd. 0 \<le> val nd) row"
    by (simp add: list_all_iff)
  then have "list_all (list_all (\<lambda>nd. 0 \<le> val nd)) ((perimeter st)[m := row])"
    using nn by (intro list_all_update) (simp_all add: perimeter_nonneg_def)
  then show "perimeter_nonneg st'"
    by (simp add: perimeter_nonneg_def p)
qed

lemma crypt_char_run:
  assumes "mirrorfield_crypt_char n G N ch st = Some (Inr (rv, st'))"
  obtains i d endnode st1 en st2 where
    "crypt_m st < N"
    "start_search (G * 4) (perimeter st ! crypt_m st) (uint ch) 0 = Some i"
    "start_dir (perimeter st ! crypt_m st ! i) = Some d"
    "mirrorfield_crypt_char_advance n G N st (Perimeter (crypt_m st) i) d = Some (Inr (endnode, st1))"
    "node_at G N st1 endnode = Inr en"
    "mirrorfield_roll_chars G N (unat (word_of_int (val (perimeter st1 ! crypt_m st ! i)) :: byte))
        (unat (word_of_int (val en) :: byte)) (crypt_m st) st1 = Inr st2"
    "st' = st2\<lparr>crypt_m := (crypt_m st + 1) mod N\<rparr>"
    "rv = (if val (perimeter st2 ! crypt_m st !
                ((unat (word_of_int (val en) :: byte) +
                  unat (word_of_int (val (perimeter st1 ! crypt_m st ! i)) :: byte)) mod (G * 4))) =
              int ((unat (word_of_int (val en) :: byte) +
                  unat (word_of_int (val (perimeter st1 ! crypt_m st ! i)) :: byte)) mod (G * 4))
           then word_of_int (val (perimeter st1 ! crypt_m st ! i)) else word_of_int (val en))"
  using assms
  by (auto simp: mirrorfield_crypt_char_def Let_def
           split: if_splits option.splits sum.splits prod.splits)

lemma crypt_char_inv:
  assumes d: "dims G N st" and nn: "perimeter_nonneg st"
    and c: "mirrorfield_crypt_char n G N ch st = Some (Inr (rv, st'))"
  shows "dims G N st'" and "perimeter_nonneg st'"
proof -
  from c obtain i d' endnode st1 sv ev st2 where
    a: "mirrorfield_crypt_char_advance n G N st (Perimeter (crypt_m st) i) d' = Some (Inr (endnode, st1))"
    and r: "mirrorfield_roll_chars G N sv ev (crypt_m st) st1 = Inr st2"
    and st': "st' = st2\<lparr>crypt_m := (crypt_m st + 1) mod N\<rparr>"
    by (rule crypt_char_run) blast
  have d1: "dims G N st1" using advance_dims [OF a] d by simp
  have n1: "perimeter_nonneg st1" using advance_perimeter [OF d nn a] nn by (simp add: perimeter_nonneg_def)
  from roll_chars_inv [OF d1 n1 r] show "dims G N st'" "perimeter_nonneg st'"
    by (simp_all add: st' dims_def perimeter_nonneg_def)
qed

lemma reachable_inv:
  assumes "reachable G N st"
  shows "dims G N st \<and> perimeter_nonneg st"
  using assms
proof (induction rule: reachable.induct)
  case start
  show ?case by (simp add: dims_start nonneg_start)
next
  case (init st)
  then show ?case by (simp add: init_inv)
next
  case (set st ch)
  then show ?case by (simp add: set_inv)
next
  case (link st)
  then show ?case using vals_eq_dims [OF link_vals] vals_eq_nonneg [OF link_vals] by simp
next
  case (advance st n p d t st')
  then show ?case
    using advance_dims [OF advance.hyps(2)] advance_perimeter [OF _ _ advance.hyps(2)]
    by (simp add: perimeter_nonneg_def)
next
  case (roll st s e m st')
  then show ?case using roll_chars_inv by blast
next
  case (crypt st n ch rv st')
  then show ?case using crypt_char_inv by blast
qed

section \<open>The character entry point\<close>

lemma start_search_found:
  "start_search n row x i0 = Some i \<Longrightarrow> i < n \<and> val (row ! i) = x"
proof (induction n row x i0 rule: start_search.induct)
  case (1 n row x i0)
  from "1.prems" show ?case
    by (subst (asm) start_search.simps) (auto split: if_splits dest: "1.IH" [rotated -1])
qed

lemma start_search_none:
  "(\<forall>j. i0 \<le> j \<and> j < n \<longrightarrow> val (row ! j) \<noteq> x) \<Longrightarrow> start_search n row x i0 = None"
proof (induction n row x i0 rule: start_search.induct)
  case (1 n row x i0)
  show ?case
  proof (cases "i0 < n")
    case True
    with "1.prems" have ne: "val (row ! i0) \<noteq> x" by simp
    have "start_search n row x (Suc i0) = None"
      using "1.prems" by (intro "1.IH" [OF True ne]) simp
    with True ne show ?thesis by (subst start_search.simps) simp
  next
    case False
    then show ?thesis by (subst start_search.simps) simp
  qed
qed

lemma reachable_dims: "reachable G N st \<Longrightarrow> dims G N st"
  using reachable_inv by blast

lemma reachable_nonneg: "reachable G N st \<Longrightarrow> perimeter_nonneg st"
  using reachable_inv by blast

text \<open>
  C9.  A call of \<open>mirrorfield_crypt_char\<close> that returns leaves the multiset of the
  perimeter values of every field as it was, so the values of a field stay pairwise
  distinct if they were; the perimeter of every field other than the current one is
  untouched.
\<close>

theorem crypt_char_keeps_alphabet:
  assumes re: "reachable G N st"
    and c: "mirrorfield_crypt_char n G N ch st = Some (Inr (rv, st'))"
  shows "\<forall>k<N. mset (map val (perimeter st' ! k)) = mset (map val (perimeter st ! k)) \<and>
               (distinct (map val (perimeter st' ! k)) \<longleftrightarrow> distinct (map val (perimeter st ! k))) \<and>
               (k \<noteq> crypt_m st \<longrightarrow> perimeter st' ! k = perimeter st ! k)"
proof -
  note d = reachable_dims [OF re] and nn = reachable_nonneg [OF re]
  from c obtain i d' endnode st1 sv ev st2 where
    a: "mirrorfield_crypt_char_advance n G N st (Perimeter (crypt_m st) i) d' = Some (Inr (endnode, st1))"
    and r: "mirrorfield_roll_chars G N sv ev (crypt_m st) st1 = Inr st2"
    and st': "st' = st2\<lparr>crypt_m := (crypt_m st + 1) mod N\<rparr>"
    by (rule crypt_char_run) blast
  have d1: "dims G N st1" using advance_dims [OF a] d by simp
  have p1: "perimeter st1 = perimeter st" by (rule advance_perimeter [OF d nn a])
  from roll_chars_perimeter [OF d1 r] p1 obtain row where
    p: "perimeter st' = (perimeter st)[crypt_m st := row]"
    and ms: "mset (map val row) = mset (map val (perimeter st ! crypt_m st))"
    by (auto simp: st')
  have "mset (map val (perimeter st' ! k)) = mset (map val (perimeter st ! k)) \<and>
        (k \<noteq> crypt_m st \<longrightarrow> perimeter st' ! k = perimeter st ! k)" if "k < N" for k
    using that ms dims_nth(3) [OF d that] by (cases "k = crypt_m st") (simp_all add: p)
  then show ?thesis
    using mset_eq_imp_distinct_iff by blast
qed

text \<open>
  The value of a call of \<open>mirrorfield_crypt_char\<close> that returns, in any reachable state:
  with \<open>sv\<close> the byte, \<open>ev\<close> the value of the exit node before the rolling step and
  \<open>k = (ev + sv) mod (GRID_SIZE * 4)\<close>, it is \<open>sv\<close> if slot \<open>k\<close> of the current field holds
  the value \<open>k\<close> after the rolling step, and \<open>ev\<close> otherwise.
\<close>

lemma crypt_char_returned_value:
  assumes re: "reachable G N st"
    and c: "mirrorfield_crypt_char n G N ch st = Some (Inr (rv, st'))"
  shows "\<exists>i d endnode st1 en.
           start_search (G * 4) (perimeter st ! crypt_m st) (uint ch) 0 = Some i \<and>
           val (perimeter st ! crypt_m st ! i) = uint ch \<and>
           mirrorfield_crypt_char_advance n G N st (Perimeter (crypt_m st) i) d
             = Some (Inr (endnode, st1)) \<and>
           node_at G N st1 endnode = Inr en \<and>
           (let sv = ch; ev = (word_of_int (val en) :: byte);
                k = (unat ev + unat sv) mod (G * 4)
            in rv = (if val (perimeter st' ! crypt_m st ! k) = int k then sv else ev))"
proof -
  note d = reachable_dims [OF re] and nn = reachable_nonneg [OF re]
  from c obtain i d' endnode st1 en st2 where
    s: "start_search (G * 4) (perimeter st ! crypt_m st) (uint ch) 0 = Some i"
    and a: "mirrorfield_crypt_char_advance n G N st (Perimeter (crypt_m st) i) d' = Some (Inr (endnode, st1))"
    and en: "node_at G N st1 endnode = Inr en"
    and st': "st' = st2\<lparr>crypt_m := (crypt_m st + 1) mod N\<rparr>"
    and rv: "rv = (if val (perimeter st2 ! crypt_m st !
                ((unat (word_of_int (val en) :: byte) +
                  unat (word_of_int (val (perimeter st1 ! crypt_m st ! i)) :: byte)) mod (G * 4))) =
              int ((unat (word_of_int (val en) :: byte) +
                  unat (word_of_int (val (perimeter st1 ! crypt_m st ! i)) :: byte)) mod (G * 4))
           then word_of_int (val (perimeter st1 ! crypt_m st ! i)) else word_of_int (val en))"
    by (rule crypt_char_run) blast
  have p1: "perimeter st1 = perimeter st" by (rule advance_perimeter [OF d nn a])
  have v: "val (perimeter st ! crypt_m st ! i) = uint ch"
    using start_search_found [OF s] by simp
  have sv: "(word_of_int (val (perimeter st1 ! crypt_m st ! i)) :: byte) = ch"
    by (simp add: p1 v)
  have "perimeter st' = perimeter st2" by (simp add: st')
  with rv sv s v a en show ?thesis
    by (intro exI [of _ i] exI [of _ d'] exI [of _ endnode] exI [of _ st1] exI [of _ en])
       (simp add: Let_def)
qed

text \<open>
  C3, as the code has it.  When no perimeter slot of the current field holds the byte,
  \<open>startnode\<close> is still \<open>NULL\<close> after the search and \<open>startnode->down\<close> dereferences it:
  the call has no defined outcome, and nothing is reported to the caller.
\<close>

theorem crypt_char_unknown_byte:
  assumes "crypt_m st < N"
    and "\<forall>i<G * 4. val (perimeter st ! crypt_m st ! i) \<noteq> uint ch"
  shows "mirrorfield_crypt_char n G N ch st = Some (Inl NullDeref)"
  using assms start_search_none [of 0 "G * 4" "perimeter st ! crypt_m st" "uint ch"]
  by (simp add: mirrorfield_crypt_char_def)

text \<open>
  C2, as the code has it.  \<open>mirrorfield_init\<close> sets every node of both arrays to value 0
  with null links, and leaves the function-local statics (the loader position \<open>i\<close>,
  \<open>j\<close>, the field cursor \<open>m\<close>, and \<open>g1\<close>, \<open>g2\<close>, \<open>c\<close>) as they are.  The state after
  the call is the state at program start exactly when those statics still hold their
  initial values.
\<close>

theorem init_resets_arrays_only:
  assumes "reachable G N st"
  shows "mirrorfield_init G N st =
           st\<lparr>gridnodes := replicate N (replicate (G * G) null_node),
              perimeter := replicate N (replicate (G * 4) null_node)\<rparr> \<and>
         (mirrorfield_init G N st = mirrorfield_start G N \<longleftrightarrow>
            set_i st = 0 \<and> set_j st = 0 \<and> crypt_m st = 0 \<and>
            roll_g1 st = 0 \<and> roll_g2 st = G * 2 \<and> roll_c st = 0)"
proof -
  note e = init_eq [OF reachable_dims [OF assms]]
  have "(st\<lparr>gridnodes := replicate N (replicate (G * G) null_node),
              perimeter := replicate N (replicate (G * 4) null_node)\<rparr> = mirrorfield_start G N) \<longleftrightarrow>
        (set_i st = 0 \<and> set_j st = 0 \<and> crypt_m st = 0 \<and>
            roll_g1 st = 0 \<and> roll_g2 st = G * 2 \<and> roll_c st = 0)"
    by (cases st) (auto simp: mirrorfield_start_def)
  with e show ?thesis by simp
qed

text \<open>
  C2 as stated fails: after one accepted byte the loader position is 1, and
  \<open>mirrorfield_init\<close> keeps it; the next byte then goes to cell 1 of field 0, where a
  program that has just started puts it in cell 0.
\<close>

theorem init_resets_all_counterexample:
  "set_i (mirrorfield_init 2 1 (snd (mirrorfield_set 2 1 0x2F (mirrorfield_start 2 1)))) = 1 \<and>
   mirrorfield_init 2 1 (snd (mirrorfield_set 2 1 0x2F (mirrorfield_start 2 1)))
     \<noteq> mirrorfield_start 2 1 \<and>
   val (gridnodes (snd (mirrorfield_set 2 1 0x5C
          (mirrorfield_init 2 1 (snd (mirrorfield_set 2 1 0x2F (mirrorfield_start 2 1)))))) ! 0 ! 0) = 0 \<and>
   val (gridnodes (snd (mirrorfield_set 2 1 0x5C (mirrorfield_start 2 1))) ! 0 ! 0) = MIRROR_BACKWARD"
  by code_simp

text \<open>
  C3 as stated fails: the byte 9 is not on the perimeter of the demo engine, and the call
  ends in the null dereference.
\<close>

theorem crypt_char_lookup_error_counterexample:
  "mirrorfield_crypt_char 6 2 1 9 demo_engine = Some (Inl NullDeref)"
  by code_simp

section \<open>The rolling step and the calls of the entry point\<close>

lemma val_roll_swap_nth:
  assumes "i < length r" "g < length r" "j < length r"
  shows "val (roll_swap r i g ! j) =
           (if j = g then val (r ! i) else if j = i then val (r ! g) else val (r ! j))"
proof -
  have "val (roll_swap r i g ! j) = map val (roll_swap r i g) ! j"
    using assms by simp
  also have "\<dots> = (map val r)[i := map val r ! g, g := map val r ! i] ! j"
    by (simp only: map_val_roll_swap [OF assms(1,2)])
  also have "\<dots> = (if j = g then val (r ! i) else if j = i then val (r ! g) else val (r ! j))"
    using assms by (simp add: nth_list_update)
  finally show ?thesis .
qed

lemma reachable_demo_engine: "reachable 2 1 demo_engine"
  unfolding demo_engine_def
  by (intro reachable.link reachable_set_all reachable.init reachable.start)

lemma reachable_demo_engine2: "reachable 1 2 demo_engine2"
  unfolding demo_engine2_def
  by (intro reachable.link reachable_set_all reachable.init reachable.start)

text \<open>
  C5.  The rolling step takes its two arguments as indices into the perimeter of field
  \<open>m\<close>.  If one of them is not below \<open>GRID_SIZE * 4\<close> the read is out of bounds.
  Otherwise, in a reachable state and when the call returns, the argument whose slot
  (the slot at that index, not the slot holding that value) has the greater value is
  \<open>x1\<close> and ends at position \<open>g1\<close>, and the other is \<open>x2\<close> and ends at position \<open>g2\<close>
  (\<open>x1\<close> is at \<open>g1\<close> when the two arguments differ).
\<close>

theorem roll_order_by_index:
  "(\<not> (s < G * 4 \<and> e < G * 4) \<longrightarrow> mirrorfield_roll_chars G N s e m st = Inl OutOfBounds) \<and>
   (reachable G N st \<and> mirrorfield_roll_chars G N s e m st = Inr st' \<longrightarrow>
      s < G * 4 \<and> e < G * 4 \<and>
      val (perimeter st' ! m ! roll_g2 st) =
        int (if val (perimeter st ! m ! s) > val (perimeter st ! m ! e) then e else s) \<and>
      (s \<noteq> e \<longrightarrow>
         val (perimeter st' ! m ! roll_g1 st) =
           int (if val (perimeter st ! m ! s) > val (perimeter st ! m ! e) then s else e)))"
proof (intro conjI impI)
  assume "\<not> (s < G * 4 \<and> e < G * 4)"
  then show "mirrorfield_roll_chars G N s e m st = Inl OutOfBounds"
    by (simp add: mirrorfield_roll_chars_def)
next
  assume h: "reachable G N st \<and> mirrorfield_roll_chars G N s e m st = Inr st'"
  then have re: "reachable G N st" and r: "mirrorfield_roll_chars G N s e m st = Inr st'"
    by simp_all
  note d = reachable_dims [OF re]
  let ?row = "perimeter st ! m"
  let ?x1 = "if val (?row ! s) > val (?row ! e) then s else e"
  let ?x2 = "if val (?row ! s) > val (?row ! e) then e else s"
  from r have b: "m < N" "s < G * 4" "e < G * 4"
    by (auto simp: mirrorfield_roll_chars_def split: if_splits)
  have len: "length ?row = G * 4" using dims_nth(1) [OF d b(1)] .
  from r obtain i i2 where
    i: "roll_search (G * 4) ?row (int ?x1) 0 = Inr i" and g1: "roll_g1 st < G * 4"
    and i2: "roll_search (G * 4) (roll_swap ?row i (roll_g1 st)) (int ?x2) 0 = Inr i2"
    and g2: "roll_g2 st < G * 4"
    and p: "perimeter st' = (perimeter st)[m := roll_swap (roll_swap ?row i (roll_g1 st)) i2 (roll_g2 st)]"
    by (auto simp: mirrorfield_roll_chars_def Let_def roll_advance_def roll_order_def
             split: if_splits sum.splits prod.splits)
  let ?row1 = "roll_swap ?row i (roll_g1 st)"
  have pm: "perimeter st' ! m = roll_swap ?row1 i2 (roll_g2 st)"
    using dims_nth(3) [OF d b(1)] b(1) by (simp add: p)
  note f1 = roll_search_found [OF i] and f2 = roll_search_found [OF i2]
  have ne: "roll_g1 st \<noteq> roll_g2 st"
  proof
    assume eq: "roll_g1 st = roll_g2 st"
    have "roll_g2 st = (roll_g1 st + G * 2) mod (G * 4)"
      using roll_window_opposite_aux [OF re] by (simp add: window_opposite_def)
    moreover have "(roll_g1 st + G * 2) mod (G * 4) \<noteq> roll_g1 st"
    proof (cases "roll_g1 st + G * 2 < G * 4")
      case True
      with b(2) show ?thesis by simp
    next
      case False
      then have "roll_g1 st + G * 2 = G * 4 + (roll_g1 st - G * 2)" "roll_g1 st - G * 2 < G * 4"
        using g1 by auto
      then have "(roll_g1 st + G * 2) mod (G * 4) = roll_g1 st - G * 2"
        by (metis mod_add_self1 mod_less)
      with b(2) False show ?thesis by auto
    qed
    ultimately show False using eq by simp
  qed
  show "s < G * 4" "e < G * 4" by (rule b)+
  show "val (perimeter st' ! m ! roll_g2 st) = int ?x2"
    using f2 g2 len by (simp add: pm val_roll_swap_nth)
  show "val (perimeter st' ! m ! roll_g1 st) = int ?x1" if "s \<noteq> e"
  proof -
    have v1: "val (?row1 ! roll_g1 st) = int ?x1"
      using f1 g1 len by (simp add: val_roll_swap_nth)
    have "val (?row1 ! i2) = int ?x2" using f2 by simp
    moreover have "?x1 \<noteq> ?x2" using that by (simp split: if_splits)
    ultimately have "i2 \<noteq> roll_g1 st" using v1 by auto
    with v1 show ?thesis
      using f2 g1 g2 len ne by (simp add: pm val_roll_swap_nth)
  qed
qed


theorem roll_order_by_index_witness:
  "\<not> ((65::nat) < 2 * 4 \<and> (66::nat) < 2 * 4) \<and>
   mirrorfield_roll_chars 2 1 65 66 0 demo_engine = Inl OutOfBounds \<and>
   reachable 1 2 demo_engine2 \<and>
   (\<exists>st'. mirrorfield_roll_chars 1 2 0 1 0 demo_engine2 = Inr st' \<and>
      val (perimeter st' ! 0 ! roll_g2 demo_engine2) = 0 \<and>
      val (perimeter st' ! 0 ! roll_g1 demo_engine2) = 1)"
proof -
  have a: "\<not> ((65::nat) < 2 * 4 \<and> (66::nat) < 2 * 4)" by simp
  have "\<not> isl (mirrorfield_roll_chars 1 2 0 1 0 demo_engine2)" by code_simp
  then obtain st' where r: "mirrorfield_roll_chars 1 2 0 1 0 demo_engine2 = Inr st'"
    by (cases "mirrorfield_roll_chars 1 2 0 1 0 demo_engine2") auto
  have v: "val (perimeter demo_engine2 ! 0 ! 0) = 0" "val (perimeter demo_engine2 ! 0 ! 1) = 1"
    by code_simp+
  from roll_order_by_index [of 65 2 66 1 0 demo_engine] a
  have 1: "mirrorfield_roll_chars 2 1 65 66 0 demo_engine = Inl OutOfBounds" by blast
  from roll_order_by_index [of 0 1 1 2 0 demo_engine2 st'] reachable_demo_engine2 r v
  have 2: "val (perimeter st' ! 0 ! roll_g2 demo_engine2) = 0 \<and>
      val (perimeter st' ! 0 ! roll_g1 demo_engine2) = 1"
    by simp
  from a 1 2 r reachable_demo_engine2 show ?thesis by blast
qed

lemma demo_crypt_returns:
  "\<exists>rv st'. mirrorfield_crypt_char 6 2 1 0 demo_engine = Some (Inr (rv, st'))"
proof -
  have "case mirrorfield_crypt_char 6 2 1 0 demo_engine of Some (Inr x) \<Rightarrow> True | _ \<Rightarrow> False"
    by code_simp
  then show ?thesis by (auto split: option.splits sum.splits)
qed

theorem crypt_char_keeps_alphabet_witness:
  "reachable 2 1 demo_engine \<and>
   (\<exists>rv st'. mirrorfield_crypt_char 6 2 1 0 demo_engine = Some (Inr (rv, st')) \<and>
      mset (map val (perimeter st' ! 0)) = mset (map val (perimeter demo_engine ! 0)))"
proof -
  from demo_crypt_returns obtain rv st' where
    c: "mirrorfield_crypt_char 6 2 1 0 demo_engine = Some (Inr (rv, st'))" by blast
  from crypt_char_keeps_alphabet [OF reachable_demo_engine c]
  have "mset (map val (perimeter st' ! 0)) = mset (map val (perimeter demo_engine ! 0))"
    by simp
  with c reachable_demo_engine show ?thesis by blast
qed

theorem crypt_char_unknown_byte_witness:
  "crypt_m demo_engine < 1 \<and>
   list_all (\<lambda>i. val (perimeter demo_engine ! crypt_m demo_engine ! i) \<noteq> uint (9::byte))
     [0..<2 * 4] \<and>
   mirrorfield_crypt_char 6 2 1 9 demo_engine = Some (Inl NullDeref)"
proof -
  have m: "crypt_m demo_engine < 1" by code_simp
  have l: "list_all (\<lambda>i. val (perimeter demo_engine ! crypt_m demo_engine ! i) \<noteq> uint (9::byte))
     [0..<2 * 4]"
    by code_simp
  then have n: "\<forall>i<2 * 4. val (perimeter demo_engine ! crypt_m demo_engine ! i) \<noteq> uint (9::byte)"
    by (simp add: list_all_iff)
  from crypt_char_unknown_byte [OF m n, of 6] m l show ?thesis by blast
qed

theorem init_resets_arrays_only_witness:
  "reachable 2 1 demo_engine \<and>
   mirrorfield_init 2 1 demo_engine =
     demo_engine\<lparr>gridnodes := replicate 1 (replicate (2 * 2) null_node),
                 perimeter := replicate 1 (replicate (2 * 4) null_node)\<rparr> \<and>
   set_i demo_engine = 12 \<and>
   mirrorfield_init 2 1 demo_engine \<noteq> mirrorfield_start 2 1"
proof -
  have i: "set_i demo_engine = 12" by code_simp
  note t = init_resets_arrays_only [OF reachable_demo_engine]
  from t have e: "mirrorfield_init 2 1 demo_engine =
     demo_engine\<lparr>gridnodes := replicate 1 (replicate (2 * 2) null_node),
                 perimeter := replicate 1 (replicate (2 * 4) null_node)\<rparr>"
    by (rule conjunct1)
  from conjunct2 [OF t] i have "mirrorfield_init 2 1 demo_engine \<noteq> mirrorfield_start 2 1"
    by simp
  with e i reachable_demo_engine show ?thesis by blast
qed

section \<open>Termination of the traversal\<close>

lemma ready_grid_links:
  assumes "ready G N st" and "k < N" and "j < G * G"
  shows "links (gridnodes st ! k ! j) = grid_links G k j"
proof -
  from assms(1,2) have m: "map links (gridnodes st ! k) = map (grid_links G k) [0..<G * G]"
    by (simp add: ready_def linked_def list_all_iff)
  have "length (gridnodes st ! k) = G * G"
    using assms(1,2) dims_nth(2) [of G N st k] by (simp add: ready_def)
  with assms(3) have "links (gridnodes st ! k ! j) = map links (gridnodes st ! k) ! j" by simp
  also have "\<dots> = grid_links G k j" using assms(3) by (simp add: m)
  finally show ?thesis .
qed

lemma ready_perimeter_links:
  assumes "ready G N st" and "k < N" and "i < G * 4"
  shows "links (perimeter st ! k ! i) = perimeter_links G k i"
proof -
  from assms(1,2) have m: "map links (perimeter st ! k) = map (perimeter_links G k) [0..<G * 4]"
    by (simp add: ready_def linked_def list_all_iff)
  have "length (perimeter st ! k) = G * 4"
    using assms(1,2) dims_nth(1) [of G N st k] by (simp add: ready_def)
  with assms(3) have "links (perimeter st ! k ! i) = map links (perimeter st ! k) ! i" by simp
  also have "\<dots> = perimeter_links G k i" using assms(3) by (simp add: m)
  finally show ?thesis .
qed

lemma ready_grid_val:
  assumes "ready G N st" and "k < N" and "j < G * G"
  shows "val (gridnodes st ! k ! j) < 0"
proof -
  have len: "length (gridnodes st ! k) = G * G" "length (gridnodes st) = N"
    using assms(1,2) dims_nth(2,4) [of G N st k] by (simp_all add: ready_def)
  from assms(1) have "list_all (list_all (\<lambda>nd. MIRROR_BACKWARD \<le> val nd \<and> val nd \<le> MIRROR_NONE)) (gridnodes st)"
    by (simp add: ready_def valid_cells_def)
  then have "list_all (\<lambda>nd. MIRROR_BACKWARD \<le> val nd \<and> val nd \<le> MIRROR_NONE) (gridnodes st ! k)"
    using len(2) assms(2) by (simp add: list_all_length)
  then have "val (gridnodes st ! k ! j) \<le> MIRROR_NONE"
    using len(1) assms(3) by (simp add: list_all_length)
  then show ?thesis by simp
qed

lemma ready_perimeter_val:
  assumes "ready G N st" and "k < N" and "i < G * 4"
  shows "0 \<le> val (perimeter st ! k ! i)"
proof -
  have "length (perimeter st ! k) = G * 4" "length (perimeter st) = N"
    using assms(1,2) dims_nth(1,3) [of G N st k] by (simp_all add: ready_def)
  with assms show ?thesis
    by (auto simp: ready_def perimeter_nonneg_def list_all_length)
qed

lemma link_of_links:
  "link_of d nd = (case links nd of (u, dn, l, r) \<Rightarrow>
     (case d of DIR_UP \<Rightarrow> u | DIR_DOWN \<Rightarrow> dn | DIR_LEFT \<Rightarrow> l | DIR_RIGHT \<Rightarrow> r))"
  by (simp add: link_of_def links_def split: dir.splits)

lemma reflect_inj: "reflect v d1 = reflect v d2 \<Longrightarrow> d1 = d2"
  by (cases d1; cases d2) (simp_all add: reflect_def split: if_splits)

text \<open>grid arithmetics\<close>

lemma grid_arith:
  fixes G j :: nat
  assumes "j < G * G"
  shows "j div G < G" and "j mod G < G" and "0 < G"
    and "Suc j mod G \<noteq> 0 \<Longrightarrow> Suc j < G * G"
    and "Suc j mod G \<noteq> 0 \<Longrightarrow> Suc j mod G \<noteq> 0 \<and> Suc j div G = j div G"
    and "j mod G \<noteq> 0 \<Longrightarrow> Suc (j - 1) mod G \<noteq> 0 \<and> 0 < j"
    and "\<not> j < G \<Longrightarrow> j - G + G < G * G"
    and "j + G < G * G \<Longrightarrow> \<not> j + G < G"
proof -
  show g: "0 < G" using assms by (cases G) auto
  show "j div G < G" using assms g by (simp add: less_mult_imp_div_less)
  show "j mod G < G" using g by simp
  show "Suc j < G * G" if "Suc j mod G \<noteq> 0"
  proof (rule ccontr)
    assume "\<not> Suc j < G * G"
    with assms have "Suc j = G * G" by simp
    with that show False by simp
  qed
  show "Suc j mod G \<noteq> 0 \<and> Suc j div G = j div G" if "Suc j mod G \<noteq> 0"
    using that by (simp add: div_Suc)
  show "Suc (j - 1) mod G \<noteq> 0 \<and> 0 < j" if "j mod G \<noteq> 0"
    using that by (cases j) auto
  show "j - G + G < G * G" if "\<not> j < G" using that assms by simp
  show "\<not> j + G < G" by simp
qed


lemma grid_step:
  assumes r: "ready G N st" and k: "k < N" and j: "j < G * G"
  shows "\<exists>p'. link_of d (gridnodes st ! k ! j) = Some p' \<and>
           ((\<exists>j'<G * G. p' = Gridnode k j' \<and>
                link_of (opposite d) (gridnodes st ! k ! j') = Some (Gridnode k j)) \<or>
            (\<exists>e<G * 4. p' = Perimeter k e))"
proof -
  note a = grid_arith [OF j]
  have l: "link_of d' (gridnodes st ! k ! j') =
      (case grid_links G k j' of (u, dn, l, r) \<Rightarrow>
        (case d' of DIR_UP \<Rightarrow> u | DIR_DOWN \<Rightarrow> dn | DIR_LEFT \<Rightarrow> l | DIR_RIGHT \<Rightarrow> r))"
    if "j' < G * G" for j' d'
    using ready_grid_links [OF r k that] by (simp add: link_of_links)
  show ?thesis
  proof (cases d)
    case DIR_UP
    show ?thesis
    proof (cases "j < G")
      case True
      then show ?thesis using j by (simp add: DIR_UP l grid_links_def)
    next
      case False
      then have "j - G < G * G" "j - G + G = j" using j by simp_all
      then show ?thesis using False j
        by (simp add: DIR_UP l grid_links_def opposite_def)
    qed
  next
    case DIR_DOWN
    show ?thesis
    proof (cases "j + G < G * G")
      case True
      then show ?thesis using j by (simp add: DIR_DOWN l grid_links_def opposite_def)
    next
      case False
      have "G * 2 + j mod G < G * 4" using a(2) by linarith
      with False show ?thesis using j by (simp add: DIR_DOWN l grid_links_def)
    qed
  next
    case DIR_LEFT
    show ?thesis
    proof (cases "j mod G = 0")
      case True
      then show ?thesis using j a(1) by (simp add: DIR_LEFT l grid_links_def)
    next
      case False
      have jp: "0 < j" using False by (cases j) auto
      then have sj: "Suc (j - 1) = j" by simp
      have "j - 1 < G * G" "Suc (j - 1) mod G \<noteq> 0" "j - 1 + 1 = j"
        using j jp False by (simp_all only: sj) simp_all
      then show ?thesis using False j
        by (simp add: DIR_LEFT l grid_links_def opposite_def)
    qed
  next
    case DIR_RIGHT
    show ?thesis
    proof (cases "Suc j mod G = 0")
      case True
      then show ?thesis using j a(1) by (simp add: DIR_RIGHT l grid_links_def)
    next
      case False
      from a(4) [OF False] have "j + 1 < G * G" by simp
      then show ?thesis using False j
        by (simp add: DIR_RIGHT l grid_links_def opposite_def)
    qed
  qed
qed

lemma div_row: "0 < G \<Longrightarrow> (x * G + (G - 1)) div (G::nat) = x"
  by (subst div_mult_self3) auto

lemma mod_row: "0 < G \<Longrightarrow> Suc (x * G + (G - 1)) mod (G::nat) = 0"
  by (metis Suc_pred' add_Suc_right mod_mult_self3 mod_self)

lemma start_dir_links:
  "start_dir nd = (case links nd of (u, dn, l, r) \<Rightarrow>
     if dn \<noteq> None then Some DIR_DOWN else if u \<noteq> None then Some DIR_UP
     else if l \<noteq> None then Some DIR_LEFT else if r \<noteq> None then Some DIR_RIGHT else None)"
  by (simp add: start_dir_def links_def)

lemma perimeter_step:
  assumes r: "ready G N st" and k: "k < N" and e: "e < G * 4"
    and s: "start_dir (perimeter st ! k ! e) = Some d"
  shows "\<exists>j'<G * G. link_of d (perimeter st ! k ! e) = Some (Gridnode k j') \<and>
           link_of (opposite d) (gridnodes st ! k ! j') = Some (Perimeter k e)"
proof -
  have g: "0 < G" using e by (cases G) auto
  have l: "link_of d' (gridnodes st ! k ! j') =
      (case grid_links G k j' of (u, dn, l, r) \<Rightarrow>
        (case d' of DIR_UP \<Rightarrow> u | DIR_DOWN \<Rightarrow> dn | DIR_LEFT \<Rightarrow> l | DIR_RIGHT \<Rightarrow> r))"
    if "j' < G * G" for j' d'
    using ready_grid_links [OF r k that] by (simp add: link_of_links)
  note pl = ready_perimeter_links [OF r k e]
  have lp: "link_of d' (perimeter st ! k ! e) =
      (case perimeter_links G k e of (u, dn, l, r) \<Rightarrow>
        (case d' of DIR_UP \<Rightarrow> u | DIR_DOWN \<Rightarrow> dn | DIR_LEFT \<Rightarrow> l | DIR_RIGHT \<Rightarrow> r))" for d'
    using pl by (simp add: link_of_links)
  consider "e < G" | "G \<le> e" "e < G * 2" | "G * 2 \<le> e" "e < G * 3" | "G * 3 \<le> e"
    by linarith
  then show ?thesis
  proof cases
    case 1
    then have d: "d = DIR_DOWN" using s by (simp add: start_dir_links pl perimeter_links_def)
    have "e < G * G" using 1 g by (metis One_nat_def Suc_leI less_le_trans mult.right_neutral mult_le_mono2)
    then show ?thesis using 1
      by (intro exI [of _ e]) (simp add: d l lp perimeter_links_def grid_links_def opposite_def)
  next
    case 2
    then have d: "d = DIR_LEFT" using s by (simp add: start_dir_links pl perimeter_links_def)
    let ?j = "(e - G) * G + (G - 1)"
    have x: "e - G < G" using 2 by simp
    have "(e - G) * G + G \<le> G * G" using x by (metis Suc_leI mult_Suc mult.commute mult_le_mono2 add.commute)
    then have j: "?j < G * G" using g by simp
    have "Suc ?j mod G = 0" using g by (rule mod_row)
    moreover have "?j div G = e - G" using g by (rule div_row)
    ultimately show ?thesis using 2 j
      by (intro exI [of _ ?j]) (simp add: d l lp perimeter_links_def grid_links_def opposite_def)
  next
    case 3
    then have d: "d = DIR_UP" using s by (simp add: start_dir_links pl perimeter_links_def)
    let ?j = "G * (G - 1) + (e - G * 2)"
    have x: "e - G * 2 < G" using 3 by simp
    have gg: "G * (G - 1) + G = G * G" using g by (metis Suc_pred' add.commute mult_Suc_right)
    then have j: "?j < G * G" using x by simp
    have "\<not> ?j + G < G * G" using gg by simp
    moreover have "?j mod G = e - G * 2" using x by simp
    ultimately show ?thesis using 3 j
      by (intro exI [of _ ?j]) (simp add: d l lp perimeter_links_def grid_links_def opposite_def)
  next
    case 4
    then have d: "d = DIR_RIGHT" using s by (simp add: start_dir_links pl perimeter_links_def)
    let ?j = "(e - G * 3) * G"
    have x: "e - G * 3 < G" using 4 e by simp
    then have j: "?j < G * G" using g by simp
    have "?j mod G = 0" "?j div G = e - G * 3" using g by simp_all
    then show ?thesis using 4 j
      by (intro exI [of _ ?j]) (simp add: d l lp perimeter_links_def grid_links_def opposite_def)
  qed
qed


lemma orbit_pred:
  "y \<in> set (orbit f n x) \<Longrightarrow> \<exists>z \<in> set (x # orbit f n x). f z = Some y"
proof (induction n arbitrary: x)
  case 0
  then show ?case by simp
next
  case (Suc n)
  then show ?case by (fastforce split: option.splits)
qed

lemma orbit_subset:
  assumes "\<And>a b. a \<in> insert s X \<Longrightarrow> f a = Some b \<Longrightarrow> b \<in> X"
  shows "x \<in> insert s X \<Longrightarrow> set (orbit f n x) \<subseteq> X"
proof (induction n arbitrary: x)
  case 0
  then show ?case by simp
next
  case (Suc n)
  show ?case
  proof (cases "f x")
    case None
    then show ?thesis by simp
  next
    case (Some y)
    with assms [OF Suc.prems Some] Suc.IH [of y] show ?thesis by simp
  qed
qed

lemma orbit_distinct:
  assumes closed: "\<And>a b. a \<in> insert s X \<Longrightarrow> f a = Some b \<Longrightarrow> b \<in> X"
    and inj: "\<And>a b c. a \<in> insert s X \<Longrightarrow> b \<in> insert s X \<Longrightarrow> f a = Some c \<Longrightarrow> f b = Some c \<Longrightarrow> a = b"
  shows "x \<in> insert s X \<Longrightarrow> x \<notin> set (orbit f n x) \<Longrightarrow> distinct (orbit f n x)"
proof (induction n arbitrary: x)
  case 0
  then show ?case by simp
next
  case (Suc n)
  show ?case
  proof (cases "f x")
    case None
    then show ?thesis by simp
  next
    case (Some y)
    have yX: "y \<in> X" using closed [OF Suc.prems(1) Some] .
    have sub: "set (orbit f n y) \<subseteq> X" using orbit_subset [of s X f y n] closed yX by blast
    have "y \<notin> set (orbit f n y)"
    proof
      assume "y \<in> set (orbit f n y)"
      from orbit_pred [OF this] obtain z where z: "z \<in> set (y # orbit f n y)" and fz: "f z = Some y"
        by blast
      from z yX sub have "z \<in> insert s X" by auto
      from inj [OF this Suc.prems(1) fz Some] have "z = x" .
      with z Suc.prems(2) Some show False by simp
    qed
    with Suc.IH [of y] yX Some show ?thesis by simp
  qed
qed

lemma orbit_bound:
  assumes fin: "finite X" and s: "s \<notin> X"
    and closed: "\<And>a b. a \<in> insert s X \<Longrightarrow> f a = Some b \<Longrightarrow> b \<in> X"
    and inj: "\<And>a b c. a \<in> insert s X \<Longrightarrow> b \<in> insert s X \<Longrightarrow> f a = Some c \<Longrightarrow> f b = Some c \<Longrightarrow> a = b"
  shows "length (orbit f n s) \<le> card X"
proof -
  have sub: "set (orbit f n s) \<subseteq> X" using orbit_subset [of s X f s n] closed by blast
  with s have "s \<notin> set (orbit f n s)" by blast
  then have "distinct (orbit f n s)"
    by (intro orbit_distinct [of s X f s n] closed inj) simp_all
  then have "length (orbit f n s) = card (set (orbit f n s))" by (simp add: distinct_card)
  also have "\<dots> \<le> card X" using sub fin by (rule card_mono [rotated])
  finally show ?thesis .
qed

lemma cell_states_finite: "finite (cell_states G k)"
  by (simp add: cell_states_def)

lemma cell_states_card: "card (cell_states G k) \<le> G * G * 4"
proof -
  have "card (cell_states G k) \<le> card ({..<G * G} \<times> {DIR_UP, DIR_DOWN, DIR_LEFT, DIR_RIGHT})"
    unfolding cell_states_def by (rule card_image_le) simp
  also have "\<dots> = G * G * 4" by (simp add: card_cartesian_product)
  finally show ?thesis .
qed

lemma cell_states_iff: "(p, d) \<in> cell_states G k \<longleftrightarrow> (\<exists>j<G * G. p = Gridnode k j)"
  by (cases d) (auto simp: cell_states_def)

text \<open>One move from a cell, or from a perimeter slot in its start direction.\<close>

lemma ready_move:
  assumes r: "ready G N st" and k: "k < N" and e: "e < G * 4"
    and s: "start_dir (perimeter st ! k ! e) = Some d0"
    and a: "(p, d) \<in> insert (Perimeter k e, d0) (cell_states G k)"
  shows "\<exists>nd p' nd'. node_at G N st p = Inr nd \<and> link_of d nd = Some p' \<and>
           node_at G N st p' = Inr nd' \<and>
           ((\<exists>j'<G * G. p' = Gridnode k j' \<and> val nd' < 0 \<and> link_of (opposite d) nd' = Some p) \<or>
            (\<exists>e'<G * 4. p' = Perimeter k e' \<and> 0 \<le> val nd'))"
proof -
  from a consider "p = Perimeter k e" "d = d0" | j where "j < G * G" "p = Gridnode k j"
    by (auto simp: cell_states_iff)
  then show ?thesis
  proof cases
    case 1
    from perimeter_step [OF r k e s] obtain j' where
      j': "j' < G * G" and l: "link_of d0 (perimeter st ! k ! e) = Some (Gridnode k j')"
      and b: "link_of (opposite d0) (gridnodes st ! k ! j') = Some (Perimeter k e)"
      by blast
    show ?thesis
      using 1 k e j' l b ready_grid_val [OF r k j']
      by (simp add: node_at_def)
  next
    case 2
    from grid_step [OF r k 2(1), of d] obtain p' where
      l: "link_of d (gridnodes st ! k ! j) = Some p'"
      and c: "(\<exists>j'<G * G. p' = Gridnode k j' \<and>
                link_of (opposite d) (gridnodes st ! k ! j') = Some (Gridnode k j)) \<or>
            (\<exists>e<G * 4. p' = Perimeter k e)"
      by blast
    from c show ?thesis
    proof
      assume "\<exists>j'<G * G. p' = Gridnode k j' \<and>
                link_of (opposite d) (gridnodes st ! k ! j') = Some (Gridnode k j)"
      then obtain j' where "j' < G * G" "p' = Gridnode k j'"
        "link_of (opposite d) (gridnodes st ! k ! j') = Some (Gridnode k j)" by blast
      then show ?thesis
        using 2 k l ready_grid_val [OF r k \<open>j' < G * G\<close>]
        by (simp add: node_at_def)
    next
      assume "\<exists>e<G * 4. p' = Perimeter k e"
      then obtain e' where "e' < G * 4" "p' = Perimeter k e'" by blast
      then show ?thesis
        using 2 k l ready_perimeter_val [OF r k \<open>e' < G * 4\<close>]
        by (simp add: node_at_def)
    qed
  qed
qed

lemma walk_step_cases:
  assumes r: "ready G N st" and k: "k < N" and e: "e < G * 4"
    and s: "start_dir (perimeter st ! k ! e) = Some d0"
    and a: "(p, d) \<in> insert (Perimeter k e, d0) (cell_states G k)"
  shows "walk_step G N st (p, d) = None \<or>
         (\<exists>j'<G * G. walk_step G N st (p, d) = Some (Gridnode k j', reflect (val (gridnodes st ! k ! j')) d) \<and>
            link_of (opposite d) (gridnodes st ! k ! j') = Some p)"
  using ready_move [OF r k e s a] k
  by (auto simp: walk_step_def node_at_def)

lemma walk_step_closed:
  assumes r: "ready G N st" and k: "k < N" and e: "e < G * 4"
    and s: "start_dir (perimeter st ! k ! e) = Some d0"
    and a: "a \<in> insert (Perimeter k e, d0) (cell_states G k)"
    and w: "walk_step G N st a = Some b"
  shows "b \<in> cell_states G k"
proof -
  obtain p d where [simp]: "a = (p, d)" by (cases a)
  from walk_step_cases [OF r k e s, of p d] a w show ?thesis
    by (auto simp: cell_states_iff)
qed

lemma walk_step_inj:
  assumes r: "ready G N st" and k: "k < N" and e: "e < G * 4"
    and s: "start_dir (perimeter st ! k ! e) = Some d0"
    and a: "a \<in> insert (Perimeter k e, d0) (cell_states G k)"
    and b: "b \<in> insert (Perimeter k e, d0) (cell_states G k)"
    and wa: "walk_step G N st a = Some c" and wb: "walk_step G N st b = Some c"
  shows "a = b"
proof -
  obtain p d where pa [simp]: "a = (p, d)" by (cases a)
  obtain q d' where pb [simp]: "b = (q, d')" by (cases b)
  from walk_step_cases [OF r k e s, of p d] a wa obtain j where
    1: "c = (Gridnode k j, reflect (val (gridnodes st ! k ! j)) d)"
    and 2: "link_of (opposite d) (gridnodes st ! k ! j) = Some p"
    by auto
  from walk_step_cases [OF r k e s, of q d'] b wb obtain j' where
    3: "c = (Gridnode k j', reflect (val (gridnodes st ! k ! j')) d')"
    and 4: "link_of (opposite d') (gridnodes st ! k ! j') = Some q"
    by auto
  from 1 3 have "j = j'" and "d = d'" by (auto dest: reflect_inj)
  with 2 4 show ?thesis by simp
qed

lemma advance_path_orbit:
  "advance_path n G N st p d = map fst (orbit (walk_step G N st) n (p, d))"
  by (induction n arbitrary: p d)
     (auto simp: walk_step_def split: sum.splits option.splits)

lemma advance_None_length:
  "mirrorfield_crypt_char_advance n G N st p d = None \<Longrightarrow>
     length (orbit (walk_step G N st) n (p, d)) = n"
  by (induction n arbitrary: p d)
     (auto simp: walk_step_def split: sum.splits option.splits if_splits prod.splits)

lemma advance_result:
  assumes r: "ready G N st" and k: "k < N" and e: "e < G * 4"
    and s: "start_dir (perimeter st ! k ! e) = Some d0"
  shows "(p, d) \<in> insert (Perimeter k e, d0) (cell_states G k) \<Longrightarrow>
         mirrorfield_crypt_char_advance n G N st p d = None \<or>
         (\<exists>e'<G * 4. \<exists>st'. mirrorfield_crypt_char_advance n G N st p d
              = Some (Inr (Perimeter k e', st')))"
proof (induction n arbitrary: p d)
  case 0
  show ?case by simp
next
  case (Suc n)
  from ready_move [OF r k e s Suc.prems] obtain nd p' nd' where
    1: "node_at G N st p = Inr nd" "link_of d nd = Some p'" "node_at G N st p' = Inr nd'"
    and c: "(\<exists>j'<G * G. p' = Gridnode k j' \<and> val nd' < 0 \<and> link_of (opposite d) nd' = Some p) \<or>
            (\<exists>e'<G * 4. p' = Perimeter k e' \<and> 0 \<le> val nd')"
    by blast
  from c show ?case
  proof
    assume "\<exists>j'<G * G. p' = Gridnode k j' \<and> val nd' < 0 \<and> link_of (opposite d) nd' = Some p"
    then obtain j' where j': "j' < G * G" "p' = Gridnode k j'" "val nd' < 0" by blast
    then have "(p', reflect (val nd') d) \<in> insert (Perimeter k e, d0) (cell_states G k)"
      by (simp add: cell_states_iff)
    from Suc.IH [OF this] show ?thesis
      using 1 j'(3) by (auto split: option.splits sum.splits prod.splits)
  next
    assume "\<exists>e'<G * 4. p' = Perimeter k e' \<and> 0 \<le> val nd'"
    then show ?thesis using 1 by auto
  qed
qed

lemma advance_returns:
  assumes r: "ready G N st" and k: "k < N" and e: "e < G * 4"
    and s: "start_dir (perimeter st ! k ! e) = Some d" and n: "G * G * 4 < n"
  shows "\<exists>e'<G * 4. \<exists>st'. mirrorfield_crypt_char_advance n G N st (Perimeter k e) d
              = Some (Inr (Perimeter k e', st'))"
    and "length (advance_path n G N st (Perimeter k e) d) \<le> G * G * 4"
proof -
  have "length (orbit (walk_step G N st) n (Perimeter k e, d)) \<le> card (cell_states G k)"
  proof (rule orbit_bound)
    show "finite (cell_states G k)" by (rule cell_states_finite)
    show "(Perimeter k e, d) \<notin> cell_states G k" by (simp add: cell_states_iff)
  next
    fix a b
    assume "a \<in> insert (Perimeter k e, d) (cell_states G k)" "walk_step G N st a = Some b"
    then show "b \<in> cell_states G k" by (rule walk_step_closed [OF r k e s])
  next
    fix a b c
    assume "a \<in> insert (Perimeter k e, d) (cell_states G k)"
      "b \<in> insert (Perimeter k e, d) (cell_states G k)"
      "walk_step G N st a = Some c" "walk_step G N st b = Some c"
    then show "a = b" by (rule walk_step_inj [OF r k e s])
  qed
  with cell_states_card [of G k]
  have b: "length (orbit (walk_step G N st) n (Perimeter k e, d)) \<le> G * G * 4" by simp
  then show "length (advance_path n G N st (Perimeter k e) d) \<le> G * G * 4"
    by (simp add: advance_path_orbit)
  have "mirrorfield_crypt_char_advance n G N st (Perimeter k e) d \<noteq> None"
    using advance_None_length [of n G N st "Perimeter k e" d] b n by auto
  with advance_result [OF r k e s, of "Perimeter k e" d n]
  show "\<exists>e'<G * 4. \<exists>st'. mirrorfield_crypt_char_advance n G N st (Perimeter k e) d
              = Some (Inr (Perimeter k e', st'))"
    by simp
qed


lemma ready_start_dir:
  assumes r: "ready G N st" and k: "k < N" and e: "e < G * 4"
  shows "\<exists>d. start_dir (perimeter st ! k ! e) = Some d"
  using ready_perimeter_links [OF r k e]
  by (simp add: start_dir_links perimeter_links_def split: if_splits)

section \<open>The linker and the engine in operation\<close>

lemma raw_node_upd:
  assumes "dims G N st" and "in_range G N p"
  shows "raw (node_upd st p f) q = (if q = p then f (raw st p) else raw st q)"
  using assms
  by (cases p; cases q)
     (auto simp: raw_def node_upd_def in_range_def dims_def list_all_length nth_list_update)

lemma link_col_loop_effect:
  assumes k: "k < N" and i: "i < G"
  shows "dims G N st \<Longrightarrow> t \<le> G \<Longrightarrow>
     temp = (if t = 0 then Perimeter k i else Gridnode k (i + (t - 1) * G)) \<Longrightarrow>
     \<exists>st'. link_col_loop G k (i + t * G) (st, temp) =
             (st', if t < G then Gridnode k (i + (G - 1) * G) else temp) \<and>
           dims G N st' \<and>
           (\<forall>q. raw st' q =
              (if t < G \<and> q = temp then (raw st q)\<lparr>down := Some (Gridnode k (i + t * G))\<rparr>
               else case q of
                 Gridnode k' j' \<Rightarrow>
                   if k' = k \<and> j' mod G = i \<and> t \<le> j' div G \<and> j' div G < G
                   then (raw st q)\<lparr>up := Some (if j' div G = 0 then Perimeter k i else Gridnode k (j' - G)),
                                    down := (if j' div G + 1 < G then Some (Gridnode k (j' + G))
                                             else down (raw st q))\<rparr>
                   else raw st q
               | Perimeter k' i' \<Rightarrow> raw st q))"
proof (induction "G - t" arbitrary: t st temp)
  case 0
  then have t: "t = G" by simp
  have "\<not> i + t * G < G * G" by (simp add: t)
  then have "link_col_loop G k (i + t * G) (st, temp) = (st, temp)"
    by (subst link_col_loop.simps) simp
  with 0 t show ?case by (auto split: nodeptr.splits)
next
  case (Suc n)
  then have t: "t < G" by simp
  let ?j = "i + t * G"
  have g: "0 < G" using i by simp
  have "Suc t * G \<le> G * G" using t by (metis Suc_leI mult.commute mult_le_mono2)
  then have j: "?j < G * G" using i by simp
  have jm: "?j mod G = i" "?j div G = t" using i by simp_all
  have tr: "in_range G N temp"
  proof (cases "t = 0")
    case True
    with Suc.prems(3) i k show ?thesis by (simp add: in_range_def)
  next
    case False
    have "i + (t - 1) * G \<le> ?j" by (simp add: mult_le_mono1)
    then have "i + (t - 1) * G < G * G" using j by (rule le_less_trans)
    with False Suc.prems(3) k show ?thesis by (simp add: in_range_def)
  qed
  have tn: "temp \<noteq> Gridnode k ?j"
  proof (cases "t = 0")
    case True
    with Suc.prems(3) show ?thesis by simp
  next
    case False
    then have "(t - 1) * G < t * G" using g by simp
    with False Suc.prems(3) show ?thesis by simp
  qed
  let ?st1 = "node_upd st temp (\<lambda>nd. nd\<lparr>down := Some (Gridnode k ?j)\<rparr>)"
  let ?st2 = "node_upd ?st1 (Gridnode k ?j) (\<lambda>nd. nd\<lparr>up := Some temp\<rparr>)"
  have d2: "dims G N ?st2" using Suc.prems(1) by simp
  have jr: "in_range G N (Gridnode k ?j)" using j k by (simp add: in_range_def)
  have r2: "raw ?st2 q = (if q = Gridnode k ?j then (raw st q)\<lparr>up := Some temp\<rparr>
                         else if q = temp then (raw st q)\<lparr>down := Some (Gridnode k ?j)\<rparr>
                         else raw st q)" for q
  proof -
    have d1: "dims G N ?st1" using Suc.prems(1) by simp
    note r1 = raw_node_upd [OF Suc.prems(1) tr]
    show ?thesis
      unfolding raw_node_upd [OF d1 jr] r1 using tn by auto
  qed
  have unf: "link_col_loop G k ?j (st, temp) = link_col_loop G k (i + Suc t * G) (?st2, Gridnode k ?j)"
    using j by (subst link_col_loop.simps) (simp add: link_down_def Let_def ac_simps)
  from Suc.hyps(2) have n: "n = G - Suc t" by simp
  have "Gridnode k ?j = (if Suc t = 0 then Perimeter k i else Gridnode k (i + (Suc t - 1) * G))"
    by simp
  from Suc.hyps(1) [OF n d2 _ this] t obtain st' where
    l: "link_col_loop G k (i + Suc t * G) (?st2, Gridnode k ?j) =
             (st', if Suc t < G then Gridnode k (i + (G - 1) * G) else Gridnode k ?j)"
    and d': "dims G N st'"
    and r': "\<And>q. raw st' q =
              (if Suc t < G \<and> q = Gridnode k ?j then (raw ?st2 q)\<lparr>down := Some (Gridnode k (i + Suc t * G))\<rparr>
               else case q of
                 Gridnode k' j' \<Rightarrow>
                   if k' = k \<and> j' mod G = i \<and> Suc t \<le> j' div G \<and> j' div G < G
                   then (raw ?st2 q)\<lparr>up := Some (if j' div G = 0 then Perimeter k i else Gridnode k (j' - G)),
                                    down := (if j' div G + 1 < G then Some (Gridnode k (j' + G))
                                             else down (raw ?st2 q))\<rparr>
                   else raw ?st2 q
               | Perimeter k' i' \<Rightarrow> raw ?st2 q)"
    by (auto simp del: node_upd_statics)
  have last: "(if Suc t < G then Gridnode k (i + (G - 1) * G) else Gridnode k ?j) = Gridnode k (i + (G - 1) * G)"
    using t by (cases "Suc t < G") (auto simp: not_less less_Suc_eq_le dest!: le_antisym)
  note r'' = r' [unfolded r2]
  have A: "j' = ?j" if "j' mod G = i" "j' div G = t" for j'
    using that div_mult_mod_eq [of j' G] by (simp add: ac_simps)
  have B: "?j - G = i + (t - 1) * G" if "t \<noteq> 0"
    using that by (cases t) simp_all
  have C: "i + Suc t * G = ?j + G" by simp
  have D: "(i + (t - 1) * G) div G = t - 1" using i by simp
  have rq: "raw st' q =
              (if t < G \<and> q = temp then (raw st q)\<lparr>down := Some (Gridnode k (i + t * G))\<rparr>
               else case q of
                 Gridnode k' j' \<Rightarrow>
                   if k' = k \<and> j' mod G = i \<and> t \<le> j' div G \<and> j' div G < G
                   then (raw st q)\<lparr>up := Some (if j' div G = 0 then Perimeter k i else Gridnode k (j' - G)),
                                    down := (if j' div G + 1 < G then Some (Gridnode k (j' + G))
                                             else down (raw st q))\<rparr>
                   else raw st q
               | Perimeter k' i' \<Rightarrow> raw st q)" for q
  proof -
    consider "q = temp" | "q = Gridnode k ?j" | "q \<noteq> temp" "q \<noteq> Gridnode k ?j" by blast
    then show ?thesis
    proof cases
      case 1
      show ?thesis
      proof (cases "t = 0")
        case True
        with 1 Suc.prems(3) t show ?thesis by (simp add: r'')
      next
        case False
        have "\<not> Suc t \<le> t - 1" by simp
        with False 1 Suc.prems(3) t tn D show ?thesis by (auto simp: r'')
      qed
    next
      case 2
      show ?thesis
      proof (cases "Suc t < G")
        case True
        with 2 tn t jm B Suc.prems(3) show ?thesis
          by (auto simp: r'' C simp del: mult_Suc)
      next
        case False
        with 2 tn t jm B Suc.prems(3) show ?thesis
          by (auto simp: r'' C simp del: mult_Suc intro!: gridnode.equality)
      qed
    next
      case 3
      show ?thesis
      proof (cases q)
        case (Perimeter k' i')
        with 3 show ?thesis by (simp add: r'')
      next
        case (Gridnode k' j')
        have "Suc t \<le> j' div G \<longleftrightarrow> t \<le> j' div G" if "k' = k" "j' mod G = i"
          using A [OF that(2)] 3(2) Gridnode that(1) by (auto simp: Suc_le_eq le_less)
        with 3 Gridnode show ?thesis by (auto simp: r'')
      qed
    qed
  qed
  from unf l last d' rq show ?case
    using t by (intro exI [of _ st']) simp
qed

lemma grid_index_facts:
  fixes G j :: nat
  assumes "0 < G"
  shows "j div G < G \<longleftrightarrow> j < G * G"
    and "j div G + 1 < G \<longleftrightarrow> j + G < G * G"
    and "j div G = 0 \<longleftrightarrow> j < G"
    and "Suc (j mod G) < G \<longleftrightarrow> Suc j mod G \<noteq> 0"
proof -
  show 1: "j div G < G \<longleftrightarrow> j < G * G" for j
    using assms by (simp add: div_less_iff_less_mult mult.commute)
  have "(j + G) div G = j div G + 1" using assms by (subst div_add_self2) auto
  with 1 [of "j + G"] show "j div G + 1 < G \<longleftrightarrow> j + G < G * G" by simp
  show "j div G = 0 \<longleftrightarrow> j < G" using assms by (simp add: div_eq_0_iff)
  show "Suc (j mod G) < G \<longleftrightarrow> Suc j mod G \<noteq> 0"
  proof -
    have "j mod G < G" using assms by simp
    then have "Suc (j mod G) < G \<longleftrightarrow> Suc (j mod G) \<noteq> G" by linarith
    then show ?thesis by (simp add: mod_Suc)
  qed
qed

lemma link_col_raw:
  assumes d: "dims G N st" and k: "k < N" and i: "i < G"
  shows "dims G N (link_col G k i st)"
    and "raw (link_col G k i st) q =
      (case q of
        Perimeter k' i' \<Rightarrow>
          if k' = k \<and> i' = i then (raw st q)\<lparr>down := Some (Gridnode k i')\<rparr>
          else if k' = k \<and> i' = G * 2 + i
            then (raw st q)\<lparr>up := Some (Gridnode k (G * (G - 1) + (i' - G * 2)))\<rparr>
          else raw st q
      | Gridnode k' j' \<Rightarrow>
          if k' = k \<and> j' < G * G \<and> j' mod G = i
          then (raw st q)\<lparr>up := Some (if j' < G then Perimeter k j' else Gridnode k (j' - G)),
                  down := Some (if j' + G < G * G then Gridnode k (j' + G)
                                else Perimeter k (G * 2 + j' mod G))\<rparr>
          else raw st q)"
proof -
  have g: "0 < G" using i by simp
  have tmp: "Perimeter k i = (if (0::nat) = 0 then Perimeter k i else Gridnode k (i + (0 - 1) * G))"
    by simp
  from link_col_loop_effect [OF k i d le0 tmp] obtain st1 where
    l0: "link_col_loop G k (i + 0 * G) (st, Perimeter k i) =
          (st1, if 0 < G then Gridnode k (i + (G - 1) * G) else Perimeter k i)"
    and d1: "dims G N st1"
    and r0: "\<And>q. raw st1 q =
              (if 0 < G \<and> q = Perimeter k i then (raw st q)\<lparr>down := Some (Gridnode k (i + 0 * G))\<rparr>
               else case q of
                 Gridnode k' j' \<Rightarrow>
                   if k' = k \<and> j' mod G = i \<and> 0 \<le> j' div G \<and> j' div G < G
                   then (raw st q)\<lparr>up := Some (if j' div G = 0 then Perimeter k i else Gridnode k (j' - G)),
                                    down := (if j' div G + 1 < G then Some (Gridnode k (j' + G))
                                             else down (raw st q))\<rparr>
                   else raw st q
               | Perimeter k' i' \<Rightarrow> raw st q)"
    by blast
  have l: "link_col_loop G k i (st, Perimeter k i) = (st1, Gridnode k (i + (G - 1) * G))"
    using l0 g by simp
  have r1: "raw st1 q =
              (if q = Perimeter k i then (raw st q)\<lparr>down := Some (Gridnode k i)\<rparr>
               else case q of
                 Gridnode k' j' \<Rightarrow>
                   if k' = k \<and> j' mod G = i \<and> j' div G < G
                   then (raw st q)\<lparr>up := Some (if j' div G = 0 then Perimeter k i else Gridnode k (j' - G)),
                                    down := (if j' div G + 1 < G then Some (Gridnode k (j' + G))
                                             else down (raw st q))\<rparr>
                   else raw st q
               | Perimeter k' i' \<Rightarrow> raw st q)" for q
    using g by (cases q) (simp_all add: r0)
  let ?last = "Gridnode k (i + (G - 1) * G)"
  let ?st2 = "node_upd st1 ?last (\<lambda>nd. nd\<lparr>down := Some (Perimeter k (i + G * 2))\<rparr>)"
  have e: "link_col G k i st = node_upd ?st2 (Perimeter k (i + G * 2)) (\<lambda>nd. nd\<lparr>up := Some ?last\<rparr>)"
    by (simp add: link_col_def l)
  show "dims G N (link_col G k i st)" by (simp add: e d1)
  have gG: "(G - 1) * G + G = G * G" using g by (cases G) simp_all
  then have lt: "i + (G - 1) * G < G * G" using i by linarith
  have n1: "\<not> i + (G - Suc 0) * G + G < G * G" using gG by simp
  have n2: "\<not> i + (G - Suc 0) * G < G" if "\<not> G \<le> Suc 0"
  proof -
    from that have "Suc 0 \<le> G - Suc 0" by simp
    then have "Suc 0 * G \<le> (G - Suc 0) * G" by (rule mult_le_mono1)
    then have "G \<le> (G - Suc 0) * G" by simp
    then show ?thesis by linarith
  qed
  have lr: "in_range G N ?last" using lt k by (simp add: in_range_def)
  have pr: "in_range G N (Perimeter k (i + G * 2))" using i k by (simp add: in_range_def)
  have d2: "dims G N ?st2" using d1 by simp
  have lm: "(i + (G - 1) * G) mod G = i" "(i + (G - 1) * G) div G = G - 1" using i by simp_all
  have gg: "G * (G - Suc 0) + i = i + (G - Suc 0) * G" "G * 2 + i = i + G * 2"
    by (simp_all add: mult.commute)
  have A2: "raw (link_col G k i st) q = raw ?st2 q" if "q \<noteq> Perimeter k (i + G * 2)" for q
    unfolding e raw_node_upd [OF d2 pr] using that by simp
  have A2': "raw (link_col G k i st) (Perimeter k (i + G * 2)) =
      (raw ?st2 (Perimeter k (i + G * 2)))\<lparr>up := Some ?last\<rparr>"
    unfolding e raw_node_upd [OF d2 pr] by simp
  have A1: "raw ?st2 q = raw st1 q" if "q \<noteq> ?last" for q
    unfolding raw_node_upd [OF d1 lr] using that by simp
  have A1': "raw ?st2 ?last = (raw st1 ?last)\<lparr>down := Some (Perimeter k (i + G * 2))\<rparr>"
    unfolding raw_node_upd [OF d1 lr] by simp
  have r1g: "raw st1 (Gridnode k' j') =
      (if k' = k \<and> j' mod G = i \<and> j' div G < G
       then (raw st (Gridnode k' j'))\<lparr>up := Some (if j' div G = 0 then Perimeter k i else Gridnode k (j' - G)),
              down := (if j' div G + 1 < G then Some (Gridnode k (j' + G))
                       else down (raw st (Gridnode k' j')))\<rparr>
       else raw st (Gridnode k' j'))" for k' j'
    by (simp add: r1)
  have r1p: "raw st1 (Perimeter k' i') =
      (if k' = k \<and> i' = i then (raw st (Perimeter k' i'))\<lparr>down := Some (Gridnode k i)\<rparr>
       else raw st (Perimeter k' i'))" for k' i'
    by (auto simp: r1)
  note f = grid_index_facts [OF g]
  show "raw (link_col G k i st) q =
      (case q of
        Perimeter k' i' \<Rightarrow>
          if k' = k \<and> i' = i then (raw st q)\<lparr>down := Some (Gridnode k i')\<rparr>
          else if k' = k \<and> i' = G * 2 + i
            then (raw st q)\<lparr>up := Some (Gridnode k (G * (G - 1) + (i' - G * 2)))\<rparr>
          else raw st q
      | Gridnode k' j' \<Rightarrow>
          if k' = k \<and> j' < G * G \<and> j' mod G = i
          then (raw st q)\<lparr>up := Some (if j' < G then Perimeter k j' else Gridnode k (j' - G)),
                  down := Some (if j' + G < G * G then Gridnode k (j' + G)
                                else Perimeter k (G * 2 + j' mod G))\<rparr>
          else raw st q)"
  proof (cases q)
    case (Perimeter k' i')
    consider "k' = k" "i' = i" | "k' = k" "i' = i + G * 2" | "\<not> (k' = k \<and> (i' = i \<or> i' = i + G * 2))"
      by blast
    then show ?thesis
    proof cases
      case 1
      then have "q \<noteq> Perimeter k (i + G * 2)" using Perimeter g by simp
      from A2 [OF this] A1 [of q] 1 Perimeter show ?thesis by (simp add: r1p)
    next
      case 2
      have "G * (G - 1) + i = i + (G - 1) * G" by (simp add: mult.commute)
      with 2 Perimeter g A2' A1 [of q] show ?thesis by (simp add: r1p add.commute)
    next
      case 3
      then have "q \<noteq> Perimeter k (i + G * 2)" using Perimeter by auto
      from A2 [OF this] A1 [of q] 3 Perimeter show ?thesis by (auto simp: r1p)
    qed
  next
    case (Gridnode k' j')
    have ne: "q \<noteq> Perimeter k (i + G * 2)" using Gridnode by simp
    note s2 = A2 [OF ne]
    have up: "(if j' div G = 0 then Perimeter k i else Gridnode k (j' - G)) =
              (if j' < G then Perimeter k j' else Gridnode k (j' - G))" if "j' mod G = i"
      using that f(3) [of j'] by auto
    consider "q = ?last" | "q \<noteq> ?last" "k' = k \<and> j' < G * G \<and> j' mod G = i"
      | "q \<noteq> ?last" "\<not> (k' = k \<and> j' < G * G \<and> j' mod G = i)" by blast
    then show ?thesis
    proof cases
      case 1
      then have kj: "k' = k" "j' = i + (G - 1) * G" using Gridnode by simp_all
      have c: "j' mod G = i" "j' div G < G" "j' < G * G" "\<not> j' + G < G * G"
        using lm lt n1 g by (simp_all add: kj)
      have in1: "k' = k \<and> j' mod G = i \<and> j' div G < G" using kj c by simp
      have "raw (link_col G k i st) q = (raw st1 ?last)\<lparr>down := Some (Perimeter k (i + G * 2))\<rparr>"
        using s2 A1' 1 by simp
      also have "raw st1 ?last = raw st1 (Gridnode k' j')" using kj by simp
      also have "\<dots> = (raw st (Gridnode k' j'))\<lparr>up := Some (if j' div G = 0 then Perimeter k i else Gridnode k (j' - G)),
              down := (if j' div G + 1 < G then Some (Gridnode k (j' + G))
                       else down (raw st (Gridnode k' j')))\<rparr>"
        by (subst r1g, rule if_P, rule in1)
      finally have e1: "raw (link_col G k i st) q =
         (raw st (Gridnode k' j'))\<lparr>up := Some (if j' < G then Perimeter k j' else Gridnode k (j' - G)),
              down := Some (Perimeter k (i + G * 2))\<rparr>"
        by (simp add: up [OF c(1)])
      have in2: "k' = k \<and> j' < G * G \<and> j' mod G = i" using kj c by simp
      show ?thesis unfolding e1 using in2 c(1,4)
        by (simp add: Gridnode add.commute)
    next
      case 2
      then have c: "k' = k" "j' < G * G" "j' mod G = i" by simp_all
      have lt2: "j' + G < G * G"
      proof (rule ccontr)
        assume n: "\<not> j' + G < G * G"
        from c(2) n f(1,2) [of j'] have "j' div G = G - Suc 0" by linarith
        then have "(G - Suc 0) * G + j' mod G = j'" using div_mult_mod_eq [of j' G] by (simp only:)
        then have "j' = i + (G - 1) * G" unfolding c(3) by simp
        with 2(1) c(1) Gridnode show False by simp
      qed
      then have d: "j' div G + 1 < G" "j' div G < G" using f(1,2) [of j'] c(2) by simp_all
      have in1: "k' = k \<and> j' mod G = i \<and> j' div G < G" using c d by simp
      have "raw (link_col G k i st) q = raw st1 (Gridnode k' j')"
        using s2 A1 [OF 2(1)] Gridnode by simp
      also have "\<dots> = (raw st (Gridnode k' j'))\<lparr>up := Some (if j' div G = 0 then Perimeter k i else Gridnode k (j' - G)),
              down := (if j' div G + 1 < G then Some (Gridnode k (j' + G))
                       else down (raw st (Gridnode k' j')))\<rparr>"
        by (subst r1g, rule if_P, rule in1)
      finally have e1: "raw (link_col G k i st) q =
         (raw st (Gridnode k' j'))\<lparr>up := Some (if j' < G then Perimeter k j' else Gridnode k (j' - G)),
              down := Some (Gridnode k (j' + G))\<rparr>"
        using d(1) by (simp add: up [OF c(3)])
      show ?thesis unfolding e1 using 2(2) lt2
        by (simp add: Gridnode)
    next
      case 3
      then have in1: "\<not> (k' = k \<and> j' mod G = i \<and> j' div G < G)" using f(1) [of j'] by blast
      have "raw (link_col G k i st) q = raw st1 (Gridnode k' j')"
        using s2 A1 [OF 3(1)] Gridnode by simp
      also have "\<dots> = raw st (Gridnode k' j')"
        by (subst r1g, rule if_not_P, rule in1)
      finally have e1: "raw (link_col G k i st) q = raw st (Gridnode k' j')" .
      show ?thesis unfolding Gridnode nodeptr.case e1 [unfolded Gridnode]
        by (rule if_not_P [symmetric]) (rule 3(2))
    qed
  qed
qed

lemma link_row_loop_effect:
  assumes k: "k < N" and i: "i < G"
  shows "dims G N st \<Longrightarrow> c \<le> G \<Longrightarrow>
     temp = (if c = 0 then Perimeter k (i + G * 3) else Gridnode k (i * G + (c - 1))) \<Longrightarrow>
     \<exists>st'. link_row_loop G k i (i * G + c) (st, temp) =
             (st', if c < G then Gridnode k (i * G + (G - 1)) else temp) \<and>
           dims G N st' \<and>
           (\<forall>q. raw st' q =
              (if c < G \<and> q = temp then (raw st q)\<lparr>right := Some (Gridnode k (i * G + c))\<rparr>
               else case q of
                 Gridnode k' j' \<Rightarrow>
                   if k' = k \<and> j' div G = i \<and> c \<le> j' mod G
                   then (raw st q)\<lparr>left := Some (if j' mod G = 0 then Perimeter k (i + G * 3)
                                                   else Gridnode k (j' - 1)),
                                    right := (if Suc (j' mod G) < G then Some (Gridnode k (j' + 1))
                                              else right (raw st q))\<rparr>
                   else raw st q
               | Perimeter k' i' \<Rightarrow> raw st q))"
proof (induction "G - c" arbitrary: c st temp)
  case 0
  then have c: "c = G" by simp
  have g: "0 < G" using i by simp
  have "\<not> i * G + c < i * G + G" by (simp add: c)
  then have "link_row_loop G k i (i * G + c) (st, temp) = (st, temp)"
    by (subst link_row_loop.simps) simp
  moreover have "\<not> G \<le> j' mod G" for j' using g by (simp add: not_le)
  ultimately show ?case using 0 c by (auto split: nodeptr.splits)
next
  case (Suc n)
  then have c: "c < G" by simp
  let ?j = "i * G + c"
  have g: "0 < G" using i by simp
  have "Suc i * G \<le> G * G" using i by (metis Suc_leI mult.commute mult_le_mono2)
  then have j: "?j < G * G" using c by simp
  have jm: "?j mod G = c" "?j div G = i" using c by simp_all
  have tr: "in_range G N temp"
  proof (cases "c = 0")
    case True
    with Suc.prems(3) i k show ?thesis by (simp add: in_range_def)
  next
    case False
    have "i * G + (c - 1) \<le> ?j" by simp
    then have "i * G + (c - 1) < G * G" using j by (rule le_less_trans)
    with False Suc.prems(3) k show ?thesis by (simp add: in_range_def)
  qed
  have tn: "temp \<noteq> Gridnode k ?j"
  proof (cases "c = 0")
    case True
    with Suc.prems(3) show ?thesis by simp
  next
    case False
    then have "c - 1 < c" by simp
    with False Suc.prems(3) show ?thesis by simp
  qed
  let ?st1 = "node_upd st temp (\<lambda>nd. nd\<lparr>right := Some (Gridnode k ?j)\<rparr>)"
  let ?st2 = "node_upd ?st1 (Gridnode k ?j) (\<lambda>nd. nd\<lparr>left := Some temp\<rparr>)"
  have d2: "dims G N ?st2" using Suc.prems(1) by simp
  have jr: "in_range G N (Gridnode k ?j)" using j k by (simp add: in_range_def)
  have r2: "raw ?st2 q = (if q = Gridnode k ?j then (raw st q)\<lparr>left := Some temp\<rparr>
                         else if q = temp then (raw st q)\<lparr>right := Some (Gridnode k ?j)\<rparr>
                         else raw st q)" for q
  proof -
    have d1: "dims G N ?st1" using Suc.prems(1) by simp
    note r1 = raw_node_upd [OF Suc.prems(1) tr]
    show ?thesis
      unfolding raw_node_upd [OF d1 jr] r1 using tn by auto
  qed
  have unf: "link_row_loop G k i ?j (st, temp) = link_row_loop G k i (i * G + Suc c) (?st2, Gridnode k ?j)"
    using c by (subst link_row_loop.simps) (simp add: link_right_def Let_def)
  from Suc.hyps(2) have n: "n = G - Suc c" by simp
  have "Gridnode k ?j = (if Suc c = 0 then Perimeter k (i + G * 3) else Gridnode k (i * G + (Suc c - 1)))"
    by simp
  from Suc.hyps(1) [OF n d2 _ this] c obtain st' where
    l: "link_row_loop G k i (i * G + Suc c) (?st2, Gridnode k ?j) =
             (st', if Suc c < G then Gridnode k (i * G + (G - 1)) else Gridnode k ?j)"
    and d': "dims G N st'"
    and r': "\<And>q. raw st' q =
              (if Suc c < G \<and> q = Gridnode k ?j then (raw ?st2 q)\<lparr>right := Some (Gridnode k (i * G + Suc c))\<rparr>
               else case q of
                 Gridnode k' j' \<Rightarrow>
                   if k' = k \<and> j' div G = i \<and> Suc c \<le> j' mod G
                   then (raw ?st2 q)\<lparr>left := Some (if j' mod G = 0 then Perimeter k (i + G * 3)
                                                   else Gridnode k (j' - 1)),
                                    right := (if Suc (j' mod G) < G then Some (Gridnode k (j' + 1))
                                              else right (raw ?st2 q))\<rparr>
                   else raw ?st2 q
               | Perimeter k' i' \<Rightarrow> raw ?st2 q)"
    by (auto simp del: node_upd_statics)
  have last: "(if Suc c < G then Gridnode k (i * G + (G - 1)) else Gridnode k ?j) = Gridnode k (i * G + (G - 1))"
    using c by (cases "Suc c < G") (auto simp: not_less less_Suc_eq_le dest!: le_antisym)
  note r'' = r' [unfolded r2]
  have A: "j' = ?j" if "j' div G = i" "j' mod G = c" for j'
    using that div_mult_mod_eq [of j' G] by (simp add: ac_simps)
  have B: "?j - 1 = i * G + (c - 1)" if "c \<noteq> 0"
    using that by (cases c) simp_all
  have C: "i * G + Suc c = ?j + 1" by simp
  have D: "(i * G + (c - 1)) mod G = c - 1" "(i * G + (c - 1)) div G = i" using c by simp_all
  have rq: "raw st' q =
              (if c < G \<and> q = temp then (raw st q)\<lparr>right := Some (Gridnode k (i * G + c))\<rparr>
               else case q of
                 Gridnode k' j' \<Rightarrow>
                   if k' = k \<and> j' div G = i \<and> c \<le> j' mod G
                   then (raw st q)\<lparr>left := Some (if j' mod G = 0 then Perimeter k (i + G * 3)
                                                   else Gridnode k (j' - 1)),
                                    right := (if Suc (j' mod G) < G then Some (Gridnode k (j' + 1))
                                              else right (raw st q))\<rparr>
                   else raw st q
               | Perimeter k' i' \<Rightarrow> raw st q)" for q
  proof -
    consider "q = temp" | "q = Gridnode k ?j" | "q \<noteq> temp" "q \<noteq> Gridnode k ?j" by blast
    then show ?thesis
    proof cases
      case 1
      show ?thesis
      proof (cases "c = 0")
        case True
        with 1 Suc.prems(3) c show ?thesis by (simp add: r'')
      next
        case False
        have "\<not> Suc c \<le> c - 1" by simp
        with False 1 Suc.prems(3) c tn D show ?thesis by (auto simp: r'')
      qed
    next
      case 2
      show ?thesis
      proof (cases "Suc c < G")
        case True
        with 2 tn c jm B Suc.prems(3) show ?thesis
          by (auto simp: r'' C)
      next
        case False
        with 2 tn c jm B Suc.prems(3) show ?thesis
          by (auto simp: r'' C intro!: gridnode.equality)
      qed
    next
      case 3
      show ?thesis
      proof (cases q)
        case (Perimeter k' i')
        with 3 show ?thesis by (simp add: r'')
      next
        case (Gridnode k' j')
        have "Suc c \<le> j' mod G \<longleftrightarrow> c \<le> j' mod G" if "k' = k" "j' div G = i"
          using A [OF that(2)] 3(2) Gridnode that(1) by (auto simp: Suc_le_eq le_less)
        with 3 Gridnode show ?thesis by (auto simp: r'')
      qed
    qed
  qed
  from unf l last d' rq show ?case
    using c by (intro exI [of _ st']) simp
qed

lemma link_row_raw:
  assumes d: "dims G N st" and k: "k < N" and i: "i < G"
  shows "dims G N (link_row G k i st)"
    and "raw (link_row G k i st) q =
      (case q of
        Perimeter k' i' \<Rightarrow>
          if k' = k \<and> i' = G * 3 + i
            then (raw st q)\<lparr>right := Some (Gridnode k ((i' - G * 3) * G))\<rparr>
          else if k' = k \<and> i' = G + i
            then (raw st q)\<lparr>left := Some (Gridnode k ((i' - G) * G + (G - 1)))\<rparr>
          else raw st q
      | Gridnode k' j' \<Rightarrow>
          if k' = k \<and> j' < G * G \<and> j' div G = i
          then (raw st q)\<lparr>left := Some (if j' mod G = 0 then Perimeter k (G * 3 + j' div G)
                                          else Gridnode k (j' - 1)),
                  right := Some (if Suc j' mod G = 0 then Perimeter k (G + j' div G)
                                 else Gridnode k (j' + 1))\<rparr>
          else raw st q)"
proof -
  have g: "0 < G" using i by simp
  have tmp: "Perimeter k (i + G * 3) =
      (if (0::nat) = 0 then Perimeter k (i + G * 3) else Gridnode k (i * G + (0 - 1)))"
    by simp
  from link_row_loop_effect [OF k i d le0 tmp] obtain st1 where
    l0: "link_row_loop G k i (i * G + 0) (st, Perimeter k (i + G * 3)) =
          (st1, if 0 < G then Gridnode k (i * G + (G - 1)) else Perimeter k (i + G * 3))"
    and d1: "dims G N st1"
    and r0: "\<And>q. raw st1 q =
              (if 0 < G \<and> q = Perimeter k (i + G * 3)
               then (raw st q)\<lparr>right := Some (Gridnode k (i * G + 0))\<rparr>
               else case q of
                 Gridnode k' j' \<Rightarrow>
                   if k' = k \<and> j' div G = i \<and> 0 \<le> j' mod G
                   then (raw st q)\<lparr>left := Some (if j' mod G = 0 then Perimeter k (i + G * 3)
                                                   else Gridnode k (j' - 1)),
                                    right := (if Suc (j' mod G) < G then Some (Gridnode k (j' + 1))
                                              else right (raw st q))\<rparr>
                   else raw st q
               | Perimeter k' i' \<Rightarrow> raw st q)"
    by blast
  let ?last = "Gridnode k (i * G + (G - 1))"
  have l: "link_row_loop G k i (i * G) (st, Perimeter k (i + G * 3)) = (st1, ?last)"
    using l0 g by simp
  have r1g: "raw st1 (Gridnode k' j') =
      (if k' = k \<and> j' div G = i
       then (raw st (Gridnode k' j'))\<lparr>left := Some (if j' mod G = 0 then Perimeter k (i + G * 3)
                                                   else Gridnode k (j' - 1)),
              right := (if Suc (j' mod G) < G then Some (Gridnode k (j' + 1))
                        else right (raw st (Gridnode k' j')))\<rparr>
       else raw st (Gridnode k' j'))" for k' j'
    using g by (simp add: r0)
  have r1p: "raw st1 (Perimeter k' i') =
      (if k' = k \<and> i' = i + G * 3
       then (raw st (Perimeter k' i'))\<lparr>right := Some (Gridnode k (i * G))\<rparr>
       else raw st (Perimeter k' i'))" for k' i'
    using g by (auto simp: r0)
  let ?st2 = "node_upd st1 ?last (\<lambda>nd. nd\<lparr>right := Some (Perimeter k (i + G))\<rparr>)"
  have e: "link_row G k i st = node_upd ?st2 (Perimeter k (i + G)) (\<lambda>nd. nd\<lparr>left := Some ?last\<rparr>)"
    by (simp add: link_row_def l)
  show "dims G N (link_row G k i st)" by (simp add: e d1)
  have "Suc i * G \<le> G * G" using i by (metis Suc_leI mult.commute mult_le_mono2)
  then have lt: "i * G + (G - 1) < G * G" using g by simp
  have lr: "in_range G N ?last" using lt k by (simp add: in_range_def)
  have pr: "in_range G N (Perimeter k (i + G))" using i k by (simp add: in_range_def)
  have d2: "dims G N ?st2" using d1 by simp
  have "(i * G + (G - 1)) mod G = (G - 1) mod G" by (rule mod_mult_self3)
  then have lm1: "(i * G + (G - 1)) mod G = G - 1" using g by simp
  have lm2: "(i * G + (G - 1)) div G = i" using g by (rule div_row)
  note lm = lm1 lm2
  have A2: "raw (link_row G k i st) q = raw ?st2 q" if "q \<noteq> Perimeter k (i + G)" for q
    unfolding e raw_node_upd [OF d2 pr] using that by simp
  have A2': "raw (link_row G k i st) (Perimeter k (i + G)) =
      (raw ?st2 (Perimeter k (i + G)))\<lparr>left := Some ?last\<rparr>"
    unfolding e raw_node_upd [OF d2 pr] by simp
  have A1: "raw ?st2 q = raw st1 q" if "q \<noteq> ?last" for q
    unfolding raw_node_upd [OF d1 lr] using that by simp
  have A1': "raw ?st2 ?last = (raw st1 ?last)\<lparr>right := Some (Perimeter k (i + G))\<rparr>"
    unfolding raw_node_upd [OF d1 lr] by simp
  note f = grid_index_facts [OF g]
  show "raw (link_row G k i st) q =
      (case q of
        Perimeter k' i' \<Rightarrow>
          if k' = k \<and> i' = G * 3 + i
            then (raw st q)\<lparr>right := Some (Gridnode k ((i' - G * 3) * G))\<rparr>
          else if k' = k \<and> i' = G + i
            then (raw st q)\<lparr>left := Some (Gridnode k ((i' - G) * G + (G - 1)))\<rparr>
          else raw st q
      | Gridnode k' j' \<Rightarrow>
          if k' = k \<and> j' < G * G \<and> j' div G = i
          then (raw st q)\<lparr>left := Some (if j' mod G = 0 then Perimeter k (G * 3 + j' div G)
                                          else Gridnode k (j' - 1)),
                  right := Some (if Suc j' mod G = 0 then Perimeter k (G + j' div G)
                                 else Gridnode k (j' + 1))\<rparr>
          else raw st q)"
  proof (cases q)
    case (Perimeter k' i')
    consider "k' = k" "i' = i + G * 3" | "k' = k" "i' = i + G"
      | "\<not> (k' = k \<and> (i' = i + G * 3 \<or> i' = i + G))"
      by blast
    then show ?thesis
    proof cases
      case 1
      then have "q \<noteq> Perimeter k (i + G)" using Perimeter g by simp
      from A2 [OF this] A1 [of q] 1 Perimeter g show ?thesis by (simp add: r1p add.commute)
    next
      case 2
      with Perimeter g A2' A1 [of q] show ?thesis by (simp add: r1p add.commute)
    next
      case 3
      then have "q \<noteq> Perimeter k (i + G)" using Perimeter by auto
      from A2 [OF this] A1 [of q] 3 Perimeter show ?thesis by (auto simp: r1p add.commute)
    qed
  next
    case (Gridnode k' j')
    have ne: "q \<noteq> Perimeter k (i + G)" using Gridnode by simp
    note s2 = A2 [OF ne]
    have lf: "(if j' mod G = 0 then Perimeter k (i + G * 3) else Gridnode k (j' - 1)) =
              (if j' mod G = 0 then Perimeter k (G * 3 + j' div G) else Gridnode k (j' - 1))"
      if "j' div G = i"
      using that by (simp add: add.commute)
    consider "q = ?last" | "q \<noteq> ?last" "k' = k \<and> j' < G * G \<and> j' div G = i"
      | "q \<noteq> ?last" "\<not> (k' = k \<and> j' < G * G \<and> j' div G = i)" by blast
    then show ?thesis
    proof cases
      case 1
      then have kj: "k' = k" "j' = i * G + (G - 1)" using Gridnode by simp_all
      have c: "j' div G = i" "j' mod G = G - 1" "j' < G * G"
        using lm lt by (simp_all add: kj)
      have c4: "\<not> Suc (j' mod G) < G" "Suc j' mod G = 0"
        using c(2) g f(4) [of j'] by simp_all
      have in1: "k' = k \<and> j' div G = i" using kj c by simp
      have "raw (link_row G k i st) q = (raw st1 ?last)\<lparr>right := Some (Perimeter k (i + G))\<rparr>"
        using s2 A1' 1 by simp
      also have "raw st1 ?last = raw st1 (Gridnode k' j')" using kj by simp
      also have "\<dots> = (raw st (Gridnode k' j'))\<lparr>left := Some (if j' mod G = 0 then Perimeter k (i + G * 3)
                                                   else Gridnode k (j' - 1)),
              right := (if Suc (j' mod G) < G then Some (Gridnode k (j' + 1))
                        else right (raw st (Gridnode k' j')))\<rparr>"
        by (subst r1g, rule if_P, rule in1)
      finally have e1: "raw (link_row G k i st) q =
         (raw st (Gridnode k' j'))\<lparr>left := Some (if j' mod G = 0 then Perimeter k (G * 3 + j' div G)
                                                   else Gridnode k (j' - 1)),
              right := Some (Perimeter k (i + G))\<rparr>"
        by (simp add: lf [OF c(1)])
      have in2: "k' = k \<and> j' < G * G \<and> j' div G = i" using kj c by simp
      show ?thesis unfolding e1 using in2 c(1) c4(2)
        by (simp add: Gridnode add.commute)
    next
      case 2
      then have c: "k' = k" "j' < G * G" "j' div G = i" by simp_all
      have ns: "Suc (j' mod G) < G"
      proof (rule ccontr)
        assume n: "\<not> Suc (j' mod G) < G"
        have "j' mod G < G" using g by simp
        with n have "j' mod G = G - 1" by linarith
        then have "i * G + (G - 1) = j'" using div_mult_mod_eq [of j' G] c(3) by (simp only:)
        with 2(1) c(1) Gridnode show False by simp
      qed
      then have ns': "Suc j' mod G \<noteq> 0" using f(4) [of j'] by simp
      have in1: "k' = k \<and> j' div G = i" using c by simp
      have "raw (link_row G k i st) q = raw st1 (Gridnode k' j')"
        using s2 A1 [OF 2(1)] Gridnode by simp
      also have "\<dots> = (raw st (Gridnode k' j'))\<lparr>left := Some (if j' mod G = 0 then Perimeter k (i + G * 3)
                                                   else Gridnode k (j' - 1)),
              right := (if Suc (j' mod G) < G then Some (Gridnode k (j' + 1))
                        else right (raw st (Gridnode k' j')))\<rparr>"
        by (subst r1g, rule if_P, rule in1)
      finally have e1: "raw (link_row G k i st) q =
         (raw st (Gridnode k' j'))\<lparr>left := Some (if j' mod G = 0 then Perimeter k (G * 3 + j' div G)
                                                   else Gridnode k (j' - 1)),
              right := Some (Gridnode k (j' + 1))\<rparr>"
        using ns by (simp add: lf [OF c(3)])
      show ?thesis unfolding e1 using 2(2) ns'
        by (simp add: Gridnode)
    next
      case 3
      have "j' div G = i \<Longrightarrow> j' < G * G" using f(1) [of j'] i by simp
      with 3 have in1: "\<not> (k' = k \<and> j' div G = i)" by blast
      have "raw (link_row G k i st) q = raw st1 (Gridnode k' j')"
        using s2 A1 [OF 3(1)] Gridnode by simp
      also have "\<dots> = raw st (Gridnode k' j')"
        by (subst r1g, rule if_not_P, rule in1)
      finally have e1: "raw (link_row G k i st) q = raw st (Gridnode k' j')" .
      show ?thesis unfolding Gridnode nodeptr.case e1 [unfolded Gridnode]
        by (rule if_not_P [symmetric]) (rule 3(2))
    qed
  qed
qed

lemma link_col_eff:
  assumes "dims G N st" and "k < N" and "i < G"
  shows "raw (link_col G k i st) q = col_eff G k i q (raw st q)"
  unfolding col_eff_def by (rule link_col_raw(2) [OF assms])

lemma link_row_eff:
  assumes "dims G N st" and "k < N" and "i < G"
  shows "raw (link_row G k i st) q = row_eff G k i q (raw st q)"
  unfolding row_eff_def by (rule link_row_raw(2) [OF assms])

lemma fold_link_col:
  assumes k: "k < N"
  shows "\<forall>i \<in> set js. i < G \<Longrightarrow> dims G N st \<Longrightarrow>
     dims G N (fold (link_col G k) js st) \<and>
     (\<forall>q. raw (fold (link_col G k) js st) q = fold (\<lambda>i. col_eff G k i q) js (raw st q))"
proof (induction js arbitrary: st)
  case Nil
  then show ?case by simp
next
  case (Cons j js)
  from Cons.prems have j: "j < G" and js: "\<forall>i \<in> set js. i < G" by simp_all
  note d1 = link_col_raw(1) [OF Cons.prems(2) k j]
  from Cons.IH [OF js d1] show ?case
    by (simp add: link_col_eff [OF Cons.prems(2) k j])
qed

lemma fold_link_row:
  assumes k: "k < N"
  shows "\<forall>i \<in> set js. i < G \<Longrightarrow> dims G N st \<Longrightarrow>
     dims G N (fold (link_row G k) js st) \<and>
     (\<forall>q. raw (fold (link_row G k) js st) q = fold (\<lambda>i. row_eff G k i q) js (raw st q))"
proof (induction js arbitrary: st)
  case Nil
  then show ?case by simp
next
  case (Cons j js)
  from Cons.prems have j: "j < G" and js: "\<forall>i \<in> set js. i < G" by simp_all
  note d1 = link_row_raw(1) [OF Cons.prems(2) k j]
  from Cons.IH [OF js d1] show ?case
    by (simp add: link_row_eff [OF Cons.prems(2) k j])
qed

lemma link_field_eff:
  assumes d: "dims G N st" and k: "k < N"
  shows "dims G N (link_field G k st)"
    and "raw (link_field G k st) q = field_eff G k q (raw st q)"
proof -
  have lt: "\<forall>i \<in> set [0..<G]. i < G" by simp
  note c = fold_link_col [OF k lt d]
  note r = fold_link_row [OF k lt conjunct1 [OF c]]
  show "dims G N (link_field G k st)" using r by (simp add: link_field_def)
  show "raw (link_field G k st) q = field_eff G k q (raw st q)"
    using r c by (simp add: link_field_def field_eff_def)
qed

lemma fold_link_field:
  shows "\<forall>k \<in> set ks. k < N \<Longrightarrow> dims G N st \<Longrightarrow>
     dims G N (fold (link_field G) ks st) \<and>
     (\<forall>q. raw (fold (link_field G) ks st) q = fold (\<lambda>k. field_eff G k q) ks (raw st q))"
proof (induction ks arbitrary: st)
  case Nil
  then show ?case by simp
next
  case (Cons k ks)
  from Cons.prems have k: "k < N" and ks: "\<forall>k \<in> set ks. k < N" by simp_all
  note d1 = link_field_eff(1) [OF Cons.prems(2) k]
  from Cons.IH [OF ks d1] show ?case
    by (simp add: link_field_eff(2) [OF Cons.prems(2) k])
qed

lemma fold_none:
  assumes "\<And>i x. i \<in> set js \<Longrightarrow> f i x = x"
  shows "fold f js x = x"
  using assms by (induction js arbitrary: x) auto

lemma fold_single:
  assumes "distinct js" and "m \<in> set js"
    and "\<And>i x. i \<in> set js \<Longrightarrow> i \<noteq> m \<Longrightarrow> f i x = x"
  shows "fold f js x = f m x"
  using assms
proof (induction js arbitrary: x)
  case Nil
  then show ?case by simp
next
  case (Cons j js)
  show ?case
  proof (cases "j = m")
    case True
    then have "m \<notin> set js" using Cons.prems(1) by simp
    then have "fold f js y = y" for y
      using Cons.prems(3) by (intro fold_none) auto
    with True show ?thesis by simp
  next
    case False
    then have "f j x = x" using Cons.prems(3) by simp
    moreover have "fold f js x = f m x"
      using Cons.prems False by (intro Cons.IH) auto
    ultimately show ?thesis by simp
  qed
qed

lemma field_eff_grid:
  assumes j: "j < G * G"
  shows "links (field_eff G k (Gridnode k j) nd) = grid_links G k j"
proof -
  from j have g: "0 < G" by (cases G) simp_all
  have c: "j mod G < G" using g by simp
  have r: "j div G < G" using j g by (simp add: less_mult_imp_div_less)
  have "fold (\<lambda>i. col_eff G k i (Gridnode k j)) [0..<G] nd = col_eff G k (j mod G) (Gridnode k j) nd"
    using c by (intro fold_single) (simp_all add: col_eff_def)
  moreover have "fold (\<lambda>i. row_eff G k i (Gridnode k j)) [0..<G] x = row_eff G k (j div G) (Gridnode k j) x" for x
    using r by (intro fold_single) (simp_all add: row_eff_def)
  ultimately show ?thesis
    using j by (simp add: field_eff_def col_eff_def row_eff_def links_def grid_links_def)
qed

lemma field_eff_perimeter:
  assumes i: "i < G * 4" and n: "links nd = (None, None, None, None)"
  shows "links (field_eff G k (Perimeter k i) nd) = perimeter_links G k i"
proof -
  let ?c = "\<lambda>c. col_eff G k c (Perimeter k i)"
  let ?r = "\<lambda>r. row_eff G k r (Perimeter k i)"
  consider "i < G" | "G \<le> i" "i < G * 2" | "G * 2 \<le> i" "i < G * 3" | "G * 3 \<le> i"
    by linarith
  then show ?thesis
  proof cases
    case 1
    have "fold ?c [0..<G] nd = ?c i nd"
      using 1 by (intro fold_single) (auto simp: col_eff_def)
    moreover have "fold ?r [0..<G] x = x" for x
      using 1 by (intro fold_none) (auto simp: row_eff_def)
    ultimately show ?thesis
      using 1 n by (simp add: field_eff_def col_eff_def links_def perimeter_links_def)
  next
    case 2
    have "fold ?c [0..<G] nd = nd"
      using 2 by (intro fold_none) (auto simp: col_eff_def)
    moreover have "fold ?r [0..<G] x = ?r (i - G) x" for x
      using 2 by (intro fold_single) (auto simp: row_eff_def)
    ultimately show ?thesis
      using 2 n by (simp add: field_eff_def row_eff_def links_def perimeter_links_def)
  next
    case 3
    have "fold ?c [0..<G] nd = ?c (i - G * 2) nd"
      using 3 by (intro fold_single) (auto simp: col_eff_def)
    moreover have "fold ?r [0..<G] x = x" for x
      using 3 by (intro fold_none) (auto simp: row_eff_def)
    ultimately show ?thesis
      using 3 n by (simp add: field_eff_def col_eff_def links_def perimeter_links_def)
  next
    case 4
    have "fold ?c [0..<G] nd = nd"
      using 4 by (intro fold_none) (auto simp: col_eff_def)
    moreover have "fold ?r [0..<G] x = ?r (i - G * 3) x" for x
      using 4 i by (intro fold_single) (auto simp: row_eff_def)
    ultimately show ?thesis
      using 4 n by (simp add: field_eff_def row_eff_def links_def perimeter_links_def)
  qed
qed

lemma field_eff_other:
  assumes "k' \<noteq> k"
  shows "field_eff G k (Gridnode k' j) nd = nd" and "field_eff G k (Perimeter k' i) nd = nd"
proof -
  have "col_eff G k c (Gridnode k' j) x = x" "col_eff G k c (Perimeter k' i) x = x" for c x
    using assms by (simp_all add: col_eff_def)
  moreover have "row_eff G k c (Gridnode k' j) x = x" "row_eff G k c (Perimeter k' i) x = x" for c x
    using assms by (simp_all add: row_eff_def)
  ultimately show "field_eff G k (Gridnode k' j) nd = nd" "field_eff G k (Perimeter k' i) nd = nd"
    by (simp_all add: field_eff_def fold_none)
qed

lemma mirrorfield_link_raw:
  assumes d: "dims G N st"
  shows "dims G N (mirrorfield_link G N st)"
    and "k < N \<Longrightarrow> raw (mirrorfield_link G N st) (Gridnode k j) = field_eff G k (Gridnode k j) (raw st (Gridnode k j))"
    and "k < N \<Longrightarrow> raw (mirrorfield_link G N st) (Perimeter k i) = field_eff G k (Perimeter k i) (raw st (Perimeter k i))"
proof -
  have lt: "\<forall>k \<in> set [0..<N]. k < N" by simp
  note f = fold_link_field [OF lt d]
  show "dims G N (mirrorfield_link G N st)" using f by (simp add: mirrorfield_link_def)
  have s1: "fold (\<lambda>f. field_eff G f (Gridnode k j)) [0..<N] x = field_eff G k (Gridnode k j) x"
    if "k < N" for x
    using that by (intro fold_single) (simp_all add: field_eff_other)
  have s2: "fold (\<lambda>f. field_eff G f (Perimeter k i)) [0..<N] x = field_eff G k (Perimeter k i) x"
    if "k < N" for x
    using that by (intro fold_single) (simp_all add: field_eff_other)
  show "raw (mirrorfield_link G N st) (Gridnode k j) = field_eff G k (Gridnode k j) (raw st (Gridnode k j))"
    if "k < N"
    using f s1 [OF that] by (simp add: mirrorfield_link_def)
  show "raw (mirrorfield_link G N st) (Perimeter k i) = field_eff G k (Perimeter k i) (raw st (Perimeter k i))"
    if "k < N"
    using f s2 [OF that] by (simp add: mirrorfield_link_def)
qed

lemma linkedI:
  assumes d: "dims G N st"
    and g: "\<And>k j. k < N \<Longrightarrow> j < G * G \<Longrightarrow> links (gridnodes st ! k ! j) = grid_links G k j"
    and p: "\<And>k i. k < N \<Longrightarrow> i < G * 4 \<Longrightarrow> links (perimeter st ! k ! i) = perimeter_links G k i"
  shows "linked G N st"
proof -
  have "map links (gridnodes st ! k) = map (grid_links G k) [0..<G * G]" if k: "k < N" for k
    using dims_nth(2) [OF d k] g [OF k] by (intro nth_equalityI) simp_all
  moreover have "map links (perimeter st ! k) = map (perimeter_links G k) [0..<G * 4]" if k: "k < N" for k
    using dims_nth(1) [OF d k] p [OF k] by (intro nth_equalityI) simp_all
  ultimately show ?thesis by (simp add: linked_def list_all_iff)
qed

lemma unlinked_nth:
  assumes "dims G N st" and "unlinked st" and "k < N" and "i < G * 4"
  shows "links (perimeter st ! k ! i) = (None, None, None, None)"
  using assms dims_nth(1,3) [OF assms(1,3)]
  by (simp add: unlinked_def list_all_length)

lemma link_linked:
  assumes d: "dims G N st" and u: "unlinked st"
  shows "linked G N (mirrorfield_link G N st)"
proof (rule linkedI)
  show "dims G N (mirrorfield_link G N st)" by (rule mirrorfield_link_raw(1) [OF d])
next
  fix k j assume k: "k < N" and j: "j < G * G"
  from mirrorfield_link_raw(2) [OF d k, of j] field_eff_grid [OF j]
  show "links (gridnodes (mirrorfield_link G N st) ! k ! j) = grid_links G k j"
    by (simp add: raw_def)
next
  fix k i assume k: "k < N" and i: "i < G * 4"
  from mirrorfield_link_raw(3) [OF d k, of i] field_eff_perimeter [OF i unlinked_nth [OF d u k i]]
  show "links (perimeter (mirrorfield_link G N st) ! k ! i) = perimeter_links G k i"
    by (simp add: raw_def)
qed

lemma links_node_upd:
  assumes "\<And>x. links (f x) = links x"
  shows "map (map links) (gridnodes (node_upd st p f)) = map (map links) (gridnodes st)"
    and "map (map links) (perimeter (node_upd st p f)) = map (map links) (perimeter st)"
  by (cases p; simp add: node_upd_def map_map_upd2 [of links f, OF assms])+

lemma unlinked_links:
  assumes "map (map links) (perimeter st') = map (map links) (perimeter st)"
  shows "unlinked st' = unlinked st"
proof -
  have "unlinked s \<longleftrightarrow> list_all (list_all (\<lambda>l. l = (None, None, None, None))) (map (map links) (perimeter s))"
    for s
    by (simp add: unlinked_def list_all_iff)
  then show ?thesis using assms by simp
qed

lemma init_unlinked:
  assumes "dims G N st"
  shows "unlinked (mirrorfield_init G N st)"
  using assms by (simp add: init_eq unlinked_def list_all_length null_node_def links_def)

lemma set_unlinked: "unlinked (snd (mirrorfield_set G N ch st)) = unlinked st"
proof (rule unlinked_links)
  have l: "links (x\<lparr>val := v\<rparr>) = links x" for x v by (simp add: links_def)
  have p: "perimeter (s\<lparr>set_i := a\<rparr>) = perimeter s" "perimeter (s\<lparr>set_j := a\<rparr>) = perimeter s" for s a
    by simp_all
  show "map (map links) (perimeter (snd (mirrorfield_set G N ch st))) = map (map links) (perimeter st)"
    by (simp add: mirrorfield_set_def Let_def set_grid_val_def links_node_upd(2) l)
qed

lemma set_all_unlinked: "unlinked (set_all G N chs st) = unlinked st"
  by (induction chs arbitrary: st) (simp_all add: set_unlinked)

lemma set_all_inv:
  assumes "dims G N st" and "perimeter_nonneg st"
  shows "dims G N (set_all G N chs st) \<and> perimeter_nonneg (set_all G N chs st)"
  using assms by (induction chs arbitrary: st) (simp_all add: set_inv)

lemma validate_valid_cells:
  assumes "dims G N st" and "mirrorfield_validate G N st = 1"
  shows "valid_cells st"
proof -
  from assms(2) have v: "\<not> (\<exists>k \<in> set [0..<N]. \<exists>i \<in> set [0..<G * G].
           val (gridnodes st ! k ! i) > MIRROR_NONE \<or> val (gridnodes st ! k ! i) < MIRROR_BACKWARD)"
    by (simp add: mirrorfield_validate_def split: if_splits)
  have "MIRROR_BACKWARD \<le> val (gridnodes st ! k ! j) \<and> val (gridnodes st ! k ! j) \<le> MIRROR_NONE"
    if "k < N" "j < G * G" for k j
    using v that by force
  then show ?thesis
    using assms(1) by (simp add: valid_cells_def dims_def list_all_length)
qed

lemma linked_links:
  assumes d: "dims G N st" and d': "dims G N st'"
    and g: "map (map links) (gridnodes st') = map (map links) (gridnodes st)"
    and p: "map (map links) (perimeter st') = map (map links) (perimeter st)"
  shows "linked G N st' = linked G N st"
proof -
  have "map links (gridnodes st' ! k) = map links (gridnodes st ! k)" if k: "k < N" for k
  proof -
    have "map links (gridnodes st' ! k) = map (map links) (gridnodes st') ! k"
      using dims_nth(4) [OF d' k] k by simp
    also have "\<dots> = map links (gridnodes st ! k)"
      using dims_nth(4) [OF d k] k by (simp add: g)
    finally show ?thesis .
  qed
  moreover have "map links (perimeter st' ! k) = map links (perimeter st ! k)" if k: "k < N" for k
  proof -
    have "map links (perimeter st' ! k) = map (map links) (perimeter st') ! k"
      using dims_nth(3) [OF d' k] k by simp
    also have "\<dots> = map links (perimeter st ! k)"
      using dims_nth(3) [OF d k] k by (simp add: p)
    finally show ?thesis .
  qed
  ultimately show ?thesis by (simp add: linked_def list_all_iff)
qed

lemma advance_links:
  "mirrorfield_crypt_char_advance n G N st p d = Some (Inr (t, st')) \<Longrightarrow>
     map (map links) (gridnodes st') = map (map links) (gridnodes st) \<and>
     map (map links) (perimeter st') = map (map links) (perimeter st)"
proof (induction n arbitrary: p d t st')
  case 0
  then show ?case by simp
next
  case (Suc n)
  have l: "links (x\<lparr>val := v\<rparr>) = links x" for x v by (simp add: links_def)
  from Suc show ?case
    by (auto split: sum.splits option.splits if_splits prod.splits simp: links_node_upd l)
qed

lemma map_update_same: "(map h xs)[k := h (xs ! k)] = map h xs"
proof (cases "k < length xs")
  case True
  then show ?thesis by (simp add: list_update_same_conv)
next
  case False
  then show ?thesis by (intro list_update_beyond) (simp add: not_less)
qed

lemma map_links_roll_swap: "map links (roll_swap row i g) = map links row"
proof -
  have l: "links (x\<lparr>val := v\<rparr>) = links x" for x v by (simp add: links_def)
  have u: "map links (xs[k := (xs ! k)\<lparr>val := v\<rparr>]) = map links xs" for xs k v
    by (simp add: map_update l map_update_same)
  show ?thesis
    unfolding roll_swap_def Let_def by (simp only: u)
qed

lemma roll_chars_links:
  assumes "mirrorfield_roll_chars G N s e m st = Inr st'"
  shows "map (map links) (perimeter st') = map (map links) (perimeter st)"
proof -
  note i = map_update_same [of "map links"]
  from assms show ?thesis
    by (auto simp: mirrorfield_roll_chars_def Let_def roll_advance_def map_update
                   map_links_roll_swap i
             split: if_splits sum.splits prod.splits)
qed

lemma rotate_valid:
  assumes "MIRROR_BACKWARD \<le> v \<and> v \<le> MIRROR_NONE"
  shows "MIRROR_BACKWARD \<le> (rotate_mirror ^^ c) v \<and> (rotate_mirror ^^ c) v \<le> MIRROR_NONE"
  using assms by (induction c) (auto simp: rotate_mirror_def)

lemma advance_valid_cells:
  assumes d: "dims G N st" and v: "valid_cells st"
    and a: "mirrorfield_crypt_char_advance n G N st p dr = Some (Inr (t, st'))"
  shows "valid_cells st'"
proof -
  have d': "dims G N st'" using advance_dims [OF a] d by simp
  have "MIRROR_BACKWARD \<le> val (gridnodes st' ! k ! j) \<and> val (gridnodes st' ! k ! j) \<le> MIRROR_NONE"
    if k: "k < N" and j: "j < G * G" for k j
  proof -
    have n: "node_at G N st (Gridnode k j) = Inr (gridnodes st ! k ! j)"
      using k j by (simp add: node_at_def)
    have o: "MIRROR_BACKWARD \<le> val (gridnodes st ! k ! j) \<and> val (gridnodes st ! k ! j) \<le> MIRROR_NONE"
      using v d k j by (simp add: valid_cells_def dims_def list_all_length)
    from advance_rotates [OF d a n] k j
    have "gridnodes st' ! k ! j = (gridnodes st ! k ! j)\<lparr>val :=
        (rotate_mirror ^^ count_list (advance_path n G N st p dr) (Gridnode k j)) (val (gridnodes st ! k ! j))\<rparr>"
      by (simp add: node_at_def)
    with rotate_valid [OF o] show ?thesis by simp
  qed
  then show ?thesis
    using d' by (simp add: valid_cells_def dims_def list_all_length)
qed

lemma advance_ready:
  assumes r: "ready G N st"
    and a: "mirrorfield_crypt_char_advance n G N st p dr = Some (Inr (t, st'))"
  shows "ready G N st'"
proof -
  from r have d: "dims G N st" and l: "linked G N st" and v: "valid_cells st"
    and nn: "perimeter_nonneg st"
    by (simp_all add: ready_def)
  have d1: "dims G N st'" using advance_dims [OF a] d by simp
  have n1: "perimeter_nonneg st'"
    using advance_perimeter [OF d nn a] nn by (simp add: perimeter_nonneg_def)
  have l1: "linked G N st'"
    using linked_links [OF d d1] advance_links [OF a] l by simp
  have v1: "valid_cells st'" by (rule advance_valid_cells [OF d v a])
  from d1 n1 l1 v1 show ?thesis by (simp add: ready_def)
qed

lemma roll_chars_ready:
  assumes r: "ready G N st"
    and ro: "mirrorfield_roll_chars G N s e m st = Inr st'"
  shows "ready G N st'"
proof -
  from r have d: "dims G N st" and l: "linked G N st" and v: "valid_cells st"
    and nn: "perimeter_nonneg st"
    by (simp_all add: ready_def)
  note i = roll_chars_inv [OF d nn ro]
  have g: "gridnodes st' = gridnodes st" by (rule roll_chars_gridnodes [OF ro])
  have l': "linked G N st'"
    using linked_links [OF d i(1) _ roll_chars_links [OF ro]] l g by simp
  have v': "valid_cells st'" using v g by (simp add: valid_cells_def)
  from i l' v' show ?thesis by (simp add: ready_def)
qed

lemma crypt_char_ready:
  assumes r: "ready G N st"
    and c: "mirrorfield_crypt_char n G N ch st = Some (Inr (rv, st'))"
  shows "ready G N st'"
proof -
  from c obtain i d' endnode st1 sv ev st2 where
    a: "mirrorfield_crypt_char_advance n G N st (Perimeter (crypt_m st) i) d' = Some (Inr (endnode, st1))"
    and ro: "mirrorfield_roll_chars G N sv ev (crypt_m st) st1 = Inr st2"
    and st': "st' = st2\<lparr>crypt_m := (crypt_m st + 1) mod N\<rparr>"
    by (rule crypt_char_run) blast
  from roll_chars_ready [OF advance_ready [OF r a] ro] show ?thesis
    by (simp add: st' ready_def dims_def linked_def valid_cells_def perimeter_nonneg_def)
qed

lemma valid_cells_vals:
  "valid_cells st \<longleftrightarrow>
     list_all (list_all (\<lambda>v. MIRROR_BACKWARD \<le> v \<and> v \<le> MIRROR_NONE)) (fst (vals st))"
  by (simp add: valid_cells_def vals_def list_all_iff)

lemma load_ready:
  assumes r: "reachable G N st0"
    and v: "mirrorfield_validate G N (set_all G N cfg (mirrorfield_init G N st0)) = 1"
  shows "ready G N (mirrorfield_link G N (set_all G N cfg (mirrorfield_init G N st0)))"
proof -
  let ?st = "set_all G N cfg (mirrorfield_init G N st0)"
  have d0: "dims G N st0" by (rule reachable_dims [OF r])
  from set_all_inv [OF init_inv [OF d0]]
  have d: "dims G N ?st" and nn: "perimeter_nonneg ?st" by simp_all
  have u: "unlinked ?st" by (simp add: set_all_unlinked init_unlinked [OF d0])
  have vc: "valid_cells ?st" by (rule validate_valid_cells [OF d v])
  have dl: "dims G N (mirrorfield_link G N ?st)" by (rule mirrorfield_link_raw(1) [OF d])
  have "valid_cells (mirrorfield_link G N ?st)"
    using vc link_vals [of G N ?st] by (simp add: valid_cells_vals)
  moreover have "perimeter_nonneg (mirrorfield_link G N ?st)"
    using nn link_vals [of G N ?st] by (simp add: perimeter_nonneg_vals)
  ultimately show ?thesis
    using dl link_linked [OF d u] by (simp add: ready_def)
qed

lemma operational_ready:
  assumes "operational G N st"
  shows "ready G N st"
  using assms
proof (induction rule: operational.induct)
  case (load st0 cfg)
  then show ?case by (rule load_ready)
next
  case (advance st n p d t st')
  then show ?case by (blast intro: advance_ready)
next
  case (roll st s e m st')
  then show ?case by (blast intro: roll_chars_ready)
next
  case (crypt st n ch rv st')
  then show ?case by (blast intro: crypt_char_ready)
qed

lemma operational_demo_engine: "operational 2 1 demo_engine"
proof -
  have "mirrorfield_validate 2 1 (set_all 2 1 demo_config (mirrorfield_init 2 1 (mirrorfield_start 2 1))) = 1"
    by code_simp
  then show ?thesis
    unfolding demo_engine_def by (intro operational.load reachable.start)
qed

text \<open>
  C4, as the code has it.  In an engine in operation (loaded, validated and linked, and
  after any number of traversals and rolling steps) the traversal from any perimeter
  slot, in the slot's start direction, returns a perimeter slot of the same field, and
  it passes through at most \<open>4 * GRID_SIZE * GRID_SIZE\<close> cells: it never leaves a cell
  twice in the same direction.  (A cell can be passed through more than once, so the
  number of cells of the field does not bound the length of the path.)
\<close>

theorem advance_terminates:
  assumes "operational G N st" and "k < N" and "e < G * 4"
  shows "\<exists>d. start_dir (perimeter st ! k ! e) = Some d \<and>
           (\<forall>n>G * G * 4.
              (\<exists>e'<G * 4. \<exists>st'. mirrorfield_crypt_char_advance n G N st (Perimeter k e) d
                  = Some (Inr (Perimeter k e', st'))) \<and>
              length (advance_path n G N st (Perimeter k e) d) \<le> G * G * 4)"
proof -
  have r: "ready G N st" by (rule operational_ready [OF assms(1)])
  from ready_start_dir [OF r assms(2,3)] obtain d where d: "start_dir (perimeter st ! k ! e) = Some d"
    by blast
  with advance_returns [OF r assms(2,3) d] show ?thesis by blast
qed

theorem advance_terminates_witness:
  "operational 2 1 demo_engine \<and> start_dir (perimeter demo_engine ! 0 ! 0) = Some DIR_DOWN \<and>
   (\<exists>e'<2 * 4. \<exists>st'. mirrorfield_crypt_char_advance 17 2 1 demo_engine (Perimeter 0 0) DIR_DOWN
        = Some (Inr (Perimeter 0 e', st'))) \<and>
   length (advance_path 17 2 1 demo_engine (Perimeter 0 0) DIR_DOWN) \<le> 2 * 2 * 4"
proof -
  note r = operational_demo_engine
  have d: "start_dir (perimeter demo_engine ! 0 ! 0) = Some DIR_DOWN" by code_simp
  from advance_terminates [OF r, of 0 0] d r show ?thesis by auto
qed

theorem advance_bound_counterexample:
  "operational 2 1 demo_engine \<and> mirrorfield_validate 2 1 demo_engine = 1 \<and>
   start_dir (perimeter demo_engine ! 0 ! 0) = Some DIR_DOWN \<and>
   mirrorfield_crypt_char_advance (2 * 2 + 1) 2 1 demo_engine (Perimeter 0 0) DIR_DOWN = None \<and>
   advance_path 6 2 1 demo_engine (Perimeter 0 0) DIR_DOWN =
     [Gridnode 0 0, Gridnode 0 2, Gridnode 0 3, Gridnode 0 1, Gridnode 0 0] \<and>
   map_option (map_sum id fst)
     (mirrorfield_crypt_char_advance 6 2 1 demo_engine (Perimeter 0 0) DIR_DOWN)
     = Some (Inr (Perimeter 0 6))"
proof (rule conjI)
  show "operational 2 1 demo_engine" by (rule operational_demo_engine)
  show "mirrorfield_validate 2 1 demo_engine = 1 \<and>
   start_dir (perimeter demo_engine ! 0 ! 0) = Some DIR_DOWN \<and>
   mirrorfield_crypt_char_advance (2 * 2 + 1) 2 1 demo_engine (Perimeter 0 0) DIR_DOWN = None \<and>
   advance_path 6 2 1 demo_engine (Perimeter 0 0) DIR_DOWN =
     [Gridnode 0 0, Gridnode 0 2, Gridnode 0 3, Gridnode 0 1, Gridnode 0 0] \<and>
   map_option (map_sum id fst)
     (mirrorfield_crypt_char_advance 6 2 1 demo_engine (Perimeter 0 0) DIR_DOWN)
     = Some (Inr (Perimeter 0 6))"
    by code_simp
qed

section \<open>The character entry point in operation\<close>

lemma operational_reachable:
  assumes "operational G N st"
  shows "reachable G N st"
  using assms
proof (induction rule: operational.induct)
  case (load st0 cfg)
  then show ?case by (intro reachable.link reachable_set_all reachable.init)
next
  case (advance st n p d t st')
  then show ?case by (blast intro: reachable.advance)
next
  case (roll st s e m st')
  then show ?case by (blast intro: reachable.roll)
next
  case (crypt st n ch rv st')
  then show ?case by (blast intro: reachable.crypt)
qed

lemma reachable_cursors:
  assumes "reachable G N st" and N: "0 < N" and G: "0 < G"
  shows "crypt_m st < N \<and> roll_g1 st < G * 4"
  using assms(1)
proof (induction rule: reachable.induct)
  case start
  show ?case using N G by (simp add: mirrorfield_start_def)
next
  case (init st)
  then show ?case using init_same_statics [of st G N] by (simp add: same_statics_def)
next
  case (set st ch)
  then show ?case by (simp add: set_window)
next
  case (link st)
  then show ?case using link_same_statics [of st G N] by (simp add: same_statics_def)
next
  case (advance st n p d t st')
  then show ?case using advance_same_statics [OF advance.hyps(2)] by (simp add: same_statics_def)
next
  case (roll st s e m st')
  from roll.hyps(2) have "crypt_m st' = crypt_m st"
    by (auto simp: mirrorfield_roll_chars_def roll_advance_def Let_def
             split: if_splits sum.splits prod.splits)
  moreover have "roll_g1 st' < G * 4"
    using roll_chars_window(1) [OF roll.hyps(2)] roll.IH G by (simp add: roll_advance_def)
  ultimately show ?case using roll.IH by simp
next
  case (crypt st n ch rv st')
  from crypt.hyps(2) obtain i d endnode st1 sv ev st2 where
    a: "mirrorfield_crypt_char_advance n G N st (Perimeter (crypt_m st) i) d = Some (Inr (endnode, st1))"
    and ro: "mirrorfield_roll_chars G N sv ev (crypt_m st) st1 = Inr st2"
    and st': "st' = st2\<lparr>crypt_m := (crypt_m st + 1) mod N\<rparr>"
    by (rule crypt_char_run) blast
  have "roll_g1 st1 < G * 4"
    using advance_same_statics [OF a] crypt.IH by (simp add: same_statics_def)
  then have "roll_g1 st2 < G * 4"
    using roll_chars_window(1) [OF ro] G by (simp add: roll_advance_def)
  then show ?case using N by (simp add: st')
qed

lemma perimeter_all_node_upd:
  assumes "list_all (list_all P) (perimeter st)"
    and "\<And>k i x. p = Perimeter k i \<Longrightarrow> P (f x)"
  shows "list_all (list_all P) (perimeter (node_upd st p f))"
proof (cases p)
  case (Gridnode k j)
  with assms(1) show ?thesis by (simp add: node_upd_def)
next
  case (Perimeter k i)
  have "list_all (list_all P)
          ((perimeter st)[k := (perimeter st ! k)[i := f (perimeter st ! k ! i)]])"
  proof (rule list_all_update)
    show "list_all (list_all P) (perimeter st)" by (rule assms(1))
  next
    assume "k < length (perimeter st)"
    with assms(1) have "list_all P (perimeter st ! k)"
      by (simp add: list_all_length)
    then show "list_all P ((perimeter st ! k)[i := f (perimeter st ! k ! i)])"
      by (rule list_all_update) (rule assms(2) [OF Perimeter])
  qed
  then show ?thesis by (simp add: Perimeter node_upd_def)
qed

lemma set_bytes:
  assumes "list_all (list_all (\<lambda>nd. val nd < 256)) (perimeter st)"
  shows "list_all (list_all (\<lambda>nd. val nd < 256)) (perimeter (snd (mirrorfield_set G N ch st)))"
proof -
  have u: "uint ch < 256" using uint_bounded [of ch] by simp
  have p: "perimeter (s\<lparr>set_i := a\<rparr>) = perimeter s" "perimeter (s\<lparr>set_j := a\<rparr>) = perimeter s" for s a
    by simp_all
  have g: "perimeter (node_upd s (Gridnode k j) f) = perimeter s" for s k j f
    by (simp add: node_upd_def)
  have "list_all (list_all (\<lambda>nd. val nd < 256))
          (perimeter (node_upd (st\<lparr>set_j := a\<rparr>) (Perimeter k i) (\<lambda>nd. nd\<lparr>val := uint ch\<rparr>)))" for a k i
    using assms u by (intro perimeter_all_node_upd) simp_all
  with assms show ?thesis
    by (simp add: mirrorfield_set_def Let_def set_grid_val_def g)
qed

lemma roll_chars_bytes:
  assumes d: "dims G N st" and b: "list_all (list_all (\<lambda>nd. val nd < 256)) (perimeter st)"
    and r: "mirrorfield_roll_chars G N s e m st = Inr st'"
  shows "list_all (list_all (\<lambda>nd. val nd < 256)) (perimeter st')"
proof -
  from roll_chars_perimeter [OF d r] obtain row where
    p: "perimeter st' = (perimeter st)[m := row]" and len: "length row = G * 4"
    and ms: "mset (map val row) = mset (map val (perimeter st ! m))" and m: "m < N"
    by blast
  have "list_all (\<lambda>nd. val nd < 256) (perimeter st ! m)"
    using b m dims_nth(3) [OF d m] by (simp add: list_all_length)
  then have "\<forall>v \<in> set (map val (perimeter st ! m)). v < 256" by (simp add: list_all_iff)
  then have "\<forall>v \<in> set (map val row). v < 256" using mset_eq_setD [OF ms] by simp
  then have "list_all (\<lambda>nd. val nd < 256) row" by (simp add: list_all_iff)
  with b show ?thesis unfolding p by (intro list_all_update) simp_all
qed

lemma reachable_bytes:
  assumes "reachable G N st"
  shows "list_all (list_all (\<lambda>nd. val nd < 256)) (perimeter st)"
  using assms
proof (induction rule: reachable.induct)
  case start
  show ?case by (simp add: mirrorfield_start_def list_all_length null_node_def)
next
  case (init st)
  show ?case
    by (simp add: init_eq [OF reachable_dims [OF init.hyps]] list_all_length null_node_def)
next
  case (set st ch)
  then show ?case by (intro set_bytes)
next
  case (link st)
  have e: "map (map val) (perimeter (mirrorfield_link G N st)) = map (map val) (perimeter st)"
    using link_vals [of G N st] by (simp add: vals_def)
  have c: "list_all (list_all (\<lambda>nd. val nd < 256)) (perimeter s) \<longleftrightarrow>
      list_all (list_all (\<lambda>v. v < 256)) (map (map val) (perimeter s))" for s
    by (simp add: list_all_iff)
  show ?case unfolding c e using link.IH [unfolded c] .
next
  case (advance st n p d t st')
  then show ?case
    using advance_perimeter [OF reachable_dims reachable_nonneg advance.hyps(2)] by simp
next
  case (roll st s e m st')
  then show ?case using roll_chars_bytes [OF reachable_dims] by blast
next
  case (crypt st n ch rv st')
  from crypt.hyps(2) obtain i d endnode st1 sv ev st2 where
    a: "mirrorfield_crypt_char_advance n G N st (Perimeter (crypt_m st) i) d = Some (Inr (endnode, st1))"
    and ro: "mirrorfield_roll_chars G N sv ev (crypt_m st) st1 = Inr st2"
    and st': "st' = st2\<lparr>crypt_m := (crypt_m st + 1) mod N\<rparr>"
    by (rule crypt_char_run) blast
  have r1: "reachable G N st1" by (rule reachable.advance [OF crypt.hyps(1) a])
  have "perimeter st1 = perimeter st"
    by (rule advance_perimeter [OF reachable_dims [OF crypt.hyps(1)] reachable_nonneg [OF crypt.hyps(1)] a])
  with crypt.IH have "list_all (list_all (\<lambda>nd. val nd < 256)) (perimeter st1)" by simp
  from roll_chars_bytes [OF reachable_dims [OF r1] this ro] show ?case by (simp add: st')
qed

lemma start_search_total:
  "\<exists>j. i0 \<le> j \<and> j < n \<and> val (row ! j) = x \<Longrightarrow> \<exists>i. start_search n row x i0 = Some i"
proof (induction n row x i0 rule: start_search.induct)
  case (1 n row x i0)
  from "1.prems" obtain j where j: "i0 \<le> j" "j < n" "val (row ! j) = x" by blast
  then have lt: "i0 < n" by simp
  show ?case
  proof (cases "val (row ! i0) = x")
    case True
    with lt show ?thesis by (subst start_search.simps) simp
  next
    case False
    with j have "Suc i0 \<le> j" by (cases "j = i0") auto
    with j have "\<exists>i. start_search n row x (Suc i0) = Some i"
      by (intro "1.IH" [OF lt False]) blast
    with lt False show ?thesis by (subst start_search.simps) simp
  qed
qed

lemma roll_search_total:
  "\<exists>j. i0 \<le> j \<and> j < n \<and> val (row ! j) = x \<Longrightarrow> \<exists>i. roll_search n row x i0 = Inr i"
proof (induction n row x i0 rule: roll_search.induct)
  case (1 n row x i0)
  from "1.prems" obtain j where j: "i0 \<le> j" "j < n" "val (row ! j) = x" by blast
  then have lt: "\<not> n \<le> i0" by simp
  show ?case
  proof (cases "val (row ! i0) = x")
    case True
    with lt show ?thesis by (subst roll_search.simps) simp
  next
    case False
    with j have "Suc i0 \<le> j" by (cases "j = i0") auto
    with j have "\<exists>i. roll_search n row x (Suc i0) = Inr i"
      by (intro "1.IH" [OF lt False]) blast
    with lt False show ?thesis by (subst roll_search.simps) simp
  qed
qed

lemma roll_search_member:
  assumes "x \<in> set (map val row)" and "length row = n"
  shows "\<exists>i. roll_search n row x 0 = Inr i"
proof -
  from assms obtain j where "j < n" "val (row ! j) = x"
    by (auto simp: in_set_conv_nth)
  then show ?thesis by (intro roll_search_total) auto
qed

lemma roll_chars_returns:
  assumes d: "dims G N st" and m: "m < N" and s: "s < G * 4" and e: "e < G * 4"
    and g1: "roll_g1 st < G * 4" and g2: "roll_g2 st < G * 4"
    and ps: "int s \<in> set (map val (perimeter st ! m))"
    and pe: "int e \<in> set (map val (perimeter st ! m))"
  shows "\<exists>st'. mirrorfield_roll_chars G N s e m st = Inr st'"
proof -
  let ?row = "perimeter st ! m"
  have len: "length ?row = G * 4" by (rule dims_nth(1) [OF d m])
  obtain x1 x2 where o: "roll_order ?row s e = (x1, x2)" by (cases "roll_order ?row s e")
  then have x: "(x1 = s \<and> x2 = e) \<or> (x1 = e \<and> x2 = s)"
    by (auto simp: roll_order_def split: if_splits)
  with ps pe have p1: "int x1 \<in> set (map val ?row)" and p2: "int x2 \<in> set (map val ?row)"
    by auto
  from roll_search_member [OF p1 len] obtain i where i: "roll_search (G * 4) ?row (int x1) 0 = Inr i"
    by blast
  have il: "i < length ?row" using roll_search_found [OF i] len by simp
  let ?row1 = "roll_swap ?row i (roll_g1 st)"
  have "mset (map val ?row1) = mset (map val ?row)"
    using il g1 len by (intro mset_roll_swap) simp_all
  then have "set (map val ?row1) = set (map val ?row)" by (rule mset_eq_setD)
  with p2 have p2': "int x2 \<in> set (map val ?row1)" by simp
  have len1: "length ?row1 = G * 4" using len by simp
  from roll_search_member [OF p2' len1] obtain i2 where
    i2: "roll_search (G * 4) ?row1 (int x2) 0 = Inr i2"
    by blast
  show ?thesis
    using m s e g1 g2 o i i2 by (simp add: mirrorfield_roll_chars_def Let_def)
qed

lemma operational_demo_engine3: "operational 2 1 demo_engine3"
proof -
  have "mirrorfield_validate 2 1 (set_all 2 1 demo_config3 (mirrorfield_init 2 1 (mirrorfield_start 2 1))) = 1"
    by code_simp
  then show ?thesis
    unfolding demo_engine3_def by (intro operational.load reachable.start)
qed

text \<open>
  C1, as the code has it.  In an engine in operation, a call of \<open>mirrorfield_crypt_char\<close>
  on a byte \<open>ch\<close> that some perimeter slot of the current field holds finds the first such
  slot, and the traversal from it, in the slot's start direction, returns an exit slot
  of the same field.  Let \<open>sv = ch\<close> and \<open>ev\<close> the value of the exit slot when the
  traversal returns (the traversal leaves the perimeter as it was).  The rolling step
  uses \<open>sv\<close> and \<open>ev\<close> as indices into the perimeter of the field.  If both are below
  \<open>GRID_SIZE * 4\<close>, the rolling step and the call return, and with
  \<open>k = (ev + sv) mod (GRID_SIZE * 4)\<close> the result is \<open>sv\<close> if slot \<open>k\<close> of the current field
  holds the value \<open>k\<close> after the rolling step, and \<open>ev\<close> otherwise.  If one of them is not,
  the rolling step reads the perimeter out of bounds and the call has no result.
\<close>

theorem crypt_char_output_rule:
  assumes op: "operational G N st" and N: "0 < N"
    and ch: "\<exists>i<G * 4. val (perimeter st ! crypt_m st ! i) = uint ch"
    and n: "G * G * 4 < n"
  shows "\<exists>i d e' st1.
      start_search (G * 4) (perimeter st ! crypt_m st) (uint ch) 0 = Some i \<and>
      val (perimeter st ! crypt_m st ! i) = uint ch \<and>
      start_dir (perimeter st ! crypt_m st ! i) = Some d \<and>
      mirrorfield_crypt_char_advance n G N st (Perimeter (crypt_m st) i) d
        = Some (Inr (Perimeter (crypt_m st) e', st1)) \<and>
      e' < G * 4 \<and> perimeter st1 = perimeter st \<and>
      (let sv = ch; ev = (word_of_int (val (perimeter st1 ! crypt_m st ! e')) :: byte);
           k = (unat ev + unat sv) mod (G * 4)
       in if unat sv < G * 4 \<and> unat ev < G * 4
          then \<exists>st2. mirrorfield_roll_chars G N (unat sv) (unat ev) (crypt_m st) st1 = Inr st2 \<and>
                 mirrorfield_crypt_char n G N ch st =
                   Some (Inr (if val (perimeter st2 ! crypt_m st ! k) = int k then sv else ev,
                              st2\<lparr>crypt_m := (crypt_m st + 1) mod N\<rparr>))
          else mirrorfield_crypt_char n G N ch st = Some (Inl OutOfBounds))"
proof -
  let ?m = "crypt_m st"
  let ?row = "perimeter st ! ?m"
  note re = operational_reachable [OF op] and r = operational_ready [OF op]
  note d = reachable_dims [OF re] and nn = reachable_nonneg [OF re]
  from ch obtain j where j: "j < G * 4" "val (?row ! j) = uint ch" by blast
  then have G: "0 < G" by (cases G) simp_all
  from reachable_cursors [OF re N G] have m: "?m < N" and g1: "roll_g1 st < G * 4" by simp_all
  have g2: "roll_g2 st < G * 4"
    using roll_window_opposite_aux [OF re] G by (simp add: window_opposite_def)
  have "\<exists>i. start_search (G * 4) ?row (uint ch) 0 = Some i"
    using j by (intro start_search_total) auto
  then obtain i where s: "start_search (G * 4) ?row (uint ch) 0 = Some i" by blast
  from start_search_found [OF s] have i: "i < G * 4" and vi: "val (?row ! i) = uint ch" by simp_all
  from ready_start_dir [OF r m i] obtain dr where dr: "start_dir (?row ! i) = Some dr" by blast
  from advance_returns(1) [OF r m i dr n] obtain e' st1 where e': "e' < G * 4"
    and a: "mirrorfield_crypt_char_advance n G N st (Perimeter ?m i) dr = Some (Inr (Perimeter ?m e', st1))"
    by blast
  have p1: "perimeter st1 = perimeter st" by (rule advance_perimeter [OF d nn a])
  have d1: "dims G N st1" using advance_dims [OF a] d by simp
  have ss: "roll_g1 st1 = roll_g1 st" "roll_g2 st1 = roll_g2 st"
    using advance_same_statics [OF a] by (simp_all add: same_statics_def)
  have na: "node_at G N st1 (Perimeter ?m e') = Inr (?row ! e')"
    using m e' by (simp add: node_at_def p1)
  define ev where "ev = (word_of_int (val (?row ! e')) :: byte)"
  have sv: "(word_of_int (val (?row ! i)) :: byte) = ch" using vi by simp
  let ?k = "(unat ev + unat ch) mod (G * 4)"
  have cc: "mirrorfield_crypt_char n G N ch st =
      (case mirrorfield_roll_chars G N (unat ch) (unat ev) ?m st1 of
         Inl f \<Rightarrow> Some (Inl f)
       | Inr st2 \<Rightarrow> Some (Inr (if val (perimeter st2 ! ?m ! ?k) = int ?k then ch else ev,
                                st2\<lparr>crypt_m := (?m + 1) mod N\<rparr>)))"
    using m s dr a na sv by (simp add: mirrorfield_crypt_char_def Let_def p1 ev_def split: sum.splits)
  have fin: "if unat ch < G * 4 \<and> unat ev < G * 4
          then \<exists>st2. mirrorfield_roll_chars G N (unat ch) (unat ev) ?m st1 = Inr st2 \<and>
                 mirrorfield_crypt_char n G N ch st =
                   Some (Inr (if val (perimeter st2 ! ?m ! ?k) = int ?k then ch else ev,
                              st2\<lparr>crypt_m := (?m + 1) mod N\<rparr>))
          else mirrorfield_crypt_char n G N ch st = Some (Inl OutOfBounds)"
  proof (cases "unat ch < G * 4 \<and> unat ev < G * 4")
    case True
    have len: "length ?row = G * 4" by (rule dims_nth(1) [OF d m])
    have "int (unat ch) = val (?row ! i)" using vi by simp
    then have ps: "int (unat ch) \<in> set (map val (perimeter st1 ! ?m))"
      using i len by (simp add: p1)
    have lo: "0 \<le> val (?row ! e')" by (rule ready_perimeter_val [OF r m e'])
    have hi: "val (?row ! e') < 256"
      using reachable_bytes [OF re] m e' len dims_nth(3) [OF d m] by (simp add: list_all_length)
    have "uint ev = val (?row ! e')"
      using lo hi by (simp add: ev_def uint_word_of_int)
    then have "int (unat ev) = val (?row ! e')" by simp
    then have pe: "int (unat ev) \<in> set (map val (perimeter st1 ! ?m))"
      using e' len by (simp add: p1)
    from True have s1: "unat ch < G * 4" and s2: "unat ev < G * 4" by simp_all
    from roll_chars_returns [OF d1 m s1 s2 _ _ ps pe] g1 g2 ss obtain st2 where
      ro: "mirrorfield_roll_chars G N (unat ch) (unat ev) ?m st1 = Inr st2"
      by auto
    show ?thesis
      unfolding cc using True ro by simp
  next
    case False
    then have "mirrorfield_roll_chars G N (unat ch) (unat ev) ?m st1 = Inl OutOfBounds"
      by (simp add: mirrorfield_roll_chars_def)
    then show ?thesis
      unfolding cc using False by simp
  qed
  show ?thesis
    apply (rule exI [of _ i], rule exI [of _ dr], rule exI [of _ e'], rule exI [of _ st1])
    unfolding Let_def p1 ev_def [symmetric]
    apply (intro conjI s vi dr a e' refl fin)
    done
qed

theorem crypt_char_output_rule_witness:
  "operational 2 1 demo_engine \<and> (0::nat) < 1 \<and>
   (\<exists>i<2 * 4. val (perimeter demo_engine ! crypt_m demo_engine ! i) = uint (0::byte)) \<and>
   2 * 2 * 4 < (17::nat) \<and>
   (\<exists>i d e' st1.
      start_search (2 * 4) (perimeter demo_engine ! crypt_m demo_engine) (uint (0::byte)) 0 = Some i \<and>
      val (perimeter demo_engine ! crypt_m demo_engine ! i) = uint (0::byte) \<and>
      start_dir (perimeter demo_engine ! crypt_m demo_engine ! i) = Some d \<and>
      mirrorfield_crypt_char_advance 17 2 1 demo_engine (Perimeter (crypt_m demo_engine) i) d
        = Some (Inr (Perimeter (crypt_m demo_engine) e', st1)) \<and>
      e' < 2 * 4 \<and> perimeter st1 = perimeter demo_engine \<and>
      (let sv = 0; ev = (word_of_int (val (perimeter st1 ! crypt_m demo_engine ! e')) :: byte);
           k = (unat ev + unat sv) mod (2 * 4)
       in if unat sv < 2 * 4 \<and> unat ev < 2 * 4
          then \<exists>st2. mirrorfield_roll_chars 2 1 (unat sv) (unat ev) (crypt_m demo_engine) st1 = Inr st2 \<and>
                 mirrorfield_crypt_char 17 2 1 0 demo_engine =
                   Some (Inr (if val (perimeter st2 ! crypt_m demo_engine ! k) = int k then sv else ev,
                              st2\<lparr>crypt_m := (crypt_m demo_engine + 1) mod 1\<rparr>))
          else mirrorfield_crypt_char 17 2 1 0 demo_engine = Some (Inl OutOfBounds))) \<and>
   map_option (map_sum id fst) (mirrorfield_crypt_char 17 2 1 0 demo_engine) = Some (Inr 6)"
proof -
  note o = operational_demo_engine
  have "0 < (2::nat) * 4 \<and> val (perimeter demo_engine ! crypt_m demo_engine ! 0) = uint (0::byte)"
    by code_simp
  then have c: "\<exists>i<2 * 4. val (perimeter demo_engine ! crypt_m demo_engine ! i) = uint (0::byte)"
    by (rule exI [of _ 0])
  have r: "map_option (map_sum id fst) (mirrorfield_crypt_char 17 2 1 0 demo_engine) = Some (Inr 6)"
    by code_simp
  have n: "(0::nat) < 1" "2 * 2 * 4 < (17::nat)" by simp_all
  note t = crypt_char_output_rule [OF o n(1) c n(2)]
  show ?thesis by (intro conjI o c n r t)
qed

theorem crypt_char_alphabet_counterexample:
  "operational 2 1 demo_engine3 \<and>
   map val (perimeter demo_engine3 ! crypt_m demo_engine3) = [65, 66, 67, 68, 69, 70, 71, 72] \<and>
   uint (0x41 :: byte) = 65 \<and>
   mirrorfield_crypt_char 17 2 1 0x41 demo_engine3 = Some (Inl OutOfBounds)"
proof (rule conjI)
  show "operational 2 1 demo_engine3" by (rule operational_demo_engine3)
  show "map val (perimeter demo_engine3 ! crypt_m demo_engine3) = [65, 66, 67, 68, 69, 70, 71, 72] \<and>
   uint (0x41 :: byte) = 65 \<and>
   mirrorfield_crypt_char 17 2 1 0x41 demo_engine3 = Some (Inl OutOfBounds)"
    by code_simp
qed

end
